theory Spec2Isabelle
  imports Main "HOL-Library.Word" "HOL-Library.Signed_Division"
begin

unbundle bit_operations_syntax

section \<open>Machine integers and outcomes\<close>

text \<open>
  Go's \<open>int32\<close>, \<open>int16\<close> and \<open>byte\<close> are words: they wrap around, and the signed ones
  are compared through \<open>\<le>s\<close> and \<open><s\<close>. Go's \<open>int\<close> (slice indices, shard numbers) is
  modelled as \<open>int\<close>: with fewer than 59 shard bits no index computation below leaves the
  64-bit range, and \<open>wf_refCount\<close> demands far fewer.

  A call either returns, panics, or parks the calling goroutine on a channel or mutex.
  The model runs one call at a time, so a parked call is an outcome of its own
  (\<open>Blocked\<close>): nobody else runs to wake it.
\<close>

type_synonym int32 = "32 word"
type_synonym int16 = "16 word"
type_synonym byte = "8 word"

datatype error = Panic string | IndexOutOfRange | NilDereference | Blocked

definition MaxInt32 :: int32 where
  "MaxInt32 = 2147483647"

text \<open>Go's \<open>%\<close> on \<open>int32\<close> truncates towards zero.\<close>

definition rem32 :: "int32 \<Rightarrow> int32 \<Rightarrow> int32" where
  "rem32 a b = word_of_int (sint a smod sint b)"

section \<open>Platform hooks and the rounding helper\<close>

definition gomaxprocs :: int where
  "gomaxprocs = 4"

definition getp :: int where
  "getp = 0"

definition slotsPerCacheLineBits :: nat where
  "slotsPerCacheLineBits = 4"

definition roundNearestPowerOf2 :: "int \<Rightarrow> int" where
  "roundNearestPowerOf2 v0 =
     (let v = v0 - 1;
          v = v OR drop_bit 1 v;
          v = v OR drop_bit 2 v;
          v = v OR drop_bit 4 v;
          v = v OR drop_bit 8 v;
          v = v OR drop_bit 16 v;
          v = v + 1
      in v)"

section \<open>The heap: counter arrays, channels and the pool\<close>

text \<open>
  Several \<open>refCount\<close> values share one \<open>counters\<close> array and differ in \<open>offset\<close>, so the
  arrays live in a store and a \<open>refCount\<close> holds the address of its array. A channel of
  capacity 1 is the number of elements it buffers; \<open>waitch\<close> is \<open>None\<close> for the nil
  channel. \<open>pool\<close> is the content of \<open>refCountPool\<close>.
\<close>

record refCount =
  pbits :: nat
  counters :: nat
  offset :: int
  waitch :: "nat option"

record heap =
  arrays :: "int32 list list"
  chans :: "nat list"
  pool :: "refCount list"

text \<open>\<open>atomic.AddInt32(&counters[i], d)\<close>: the new value, and the index check of the slice.\<close>

definition AddInt32 :: "nat \<Rightarrow> int \<Rightarrow> int32 \<Rightarrow> heap \<Rightarrow> error + (int32 \<times> heap)" where
  "AddInt32 a i d h =
     (if a < length (arrays h) \<and> 0 \<le> i \<and> nat i < length (arrays h ! a)
      then let v = arrays h ! a ! nat i + d
           in Inr (v, h\<lparr>arrays := (arrays h)[a := (arrays h ! a)[nat i := v]]\<rparr>)
      else Inl IndexOutOfRange)"

definition StoreInt32 :: "nat \<Rightarrow> int \<Rightarrow> int32 \<Rightarrow> heap \<Rightarrow> error + heap" where
  "StoreInt32 a i v h =
     (if a < length (arrays h) \<and> 0 \<le> i \<and> nat i < length (arrays h ! a)
      then Inr (h\<lparr>arrays := (arrays h)[a := (arrays h ! a)[nat i := v]]\<rparr>)
      else Inl IndexOutOfRange)"

text \<open>
  Send and receive on a channel of capacity 1. A send on a full channel and a receive on
  an empty one park the goroutine, and so does either on the nil channel.
\<close>

definition chan_send :: "nat option \<Rightarrow> heap \<Rightarrow> error + heap" where
  "chan_send ch h =
     (case ch of
        None \<Rightarrow> Inl Blocked
      | Some c \<Rightarrow>
          if c < length (chans h) \<and> chans h ! c < 1
          then Inr (h\<lparr>chans := (chans h)[c := chans h ! c + 1]\<rparr>)
          else Inl Blocked)"

definition chan_recv :: "nat option \<Rightarrow> heap \<Rightarrow> error + heap" where
  "chan_recv ch h =
     (case ch of
        None \<Rightarrow> Inl Blocked
      | Some c \<Rightarrow>
          if c < length (chans h) \<and> 0 < chans h ! c
          then Inr (h\<lparr>chans := (chans h)[c := chans h ! c - 1]\<rparr>)
          else Inl Blocked)"

section \<open>refCount\<close>

definition maxPid :: "refCount \<Rightarrow> int" where
  "maxPid r = push_bit (pbits r) 1 - 1"

definition idxForP :: "refCount \<Rightarrow> int \<Rightarrow> int" where
  "idxForP r p =
     (let pid = p AND maxPid r
      in push_bit slotsPerCacheLineBits pid + offset r)"

definition acquire :: "refCount \<Rightarrow> heap \<Rightarrow> error + (int \<times> heap)" where
  "acquire r h =
     (let idx = idxForP r (getp + 1)
      in case AddInt32 (counters r) idx 1 h of
           Inl e \<Rightarrow> Inl e
         | Inr (v, h') \<Rightarrow>
             if v = MaxInt32
             then Inl (Panic ''refCount does not support more than 2 billion acquires.'')
             else Inr (idx, h'))"

definition release :: "refCount \<Rightarrow> int \<Rightarrow> heap \<Rightarrow> error + heap" where
  "release r idx h =
     (case AddInt32 (counters r) idx (- 1) h of
        Inl e \<Rightarrow> Inl e
      | Inr (v, h1) \<Rightarrow>
          if 0 \<le>s v then Inr h1
          else (case AddInt32 (counters r) (idxForP r 0) (- 1) h1 of
                  Inl e \<Rightarrow> Inl e
                | Inr (v0, h2) \<Rightarrow>
                    if v0 \<noteq> 0 then Inr h2
                    else chan_send (waitch r) h2))"

text \<open>The scan of \<open>wait\<close>: the loop over the shards \<open>i, i + 1, \<dots>, maxPid\<close>.\<close>

function wait_loop :: "refCount \<Rightarrow> int \<Rightarrow> int32 \<Rightarrow> heap \<Rightarrow> error + (int32 \<times> heap)" where
  "wait_loop r i pendingSlots h =
     (if i \<le> maxPid r
      then (case AddInt32 (counters r) (idxForP r i) (- 1) h of
              Inl e \<Rightarrow> Inl e
            | Inr (v, h') \<Rightarrow>
                wait_loop r (i + 1) (if 0 \<le>s v then pendingSlots + 1 else pendingSlots) h')
      else Inr (pendingSlots, h))"
  by pat_completeness auto
termination
  by (relation "measure (\<lambda>(r, i, p, h). nat (maxPid r + 1 - i))") auto

definition wait :: "refCount \<Rightarrow> heap \<Rightarrow> error + heap" where
  "wait r h =
     (case wait_loop r 1 0 h of
        Inl e \<Rightarrow> Inl e
      | Inr (pendingSlots, h1) \<Rightarrow>
          if 0 <s pendingSlots
          then (case AddInt32 (counters r) (idxForP r 0) pendingSlots h1 of
                  Inl e \<Rightarrow> Inl e
                | Inr (v, h2) \<Rightarrow>
                    if 0 <s v then chan_recv (waitch r) h2 else Inr h2)
          else Inr h1)"

function clear_loop :: "refCount \<Rightarrow> int \<Rightarrow> heap \<Rightarrow> error + heap" where
  "clear_loop r i h =
     (if i \<le> maxPid r
      then (case StoreInt32 (counters r) (idxForP r i) 0 h of
              Inl e \<Rightarrow> Inl e
            | Inr h' \<Rightarrow> clear_loop r (i + 1) h')
      else Inr h)"
  by pat_completeness auto
termination
  by (relation "measure (\<lambda>(r, i, h). nat (maxPid r + 1 - i))") auto

definition clear :: "refCount \<Rightarrow> heap \<Rightarrow> error + heap" where
  "clear r h =
     (case StoreInt32 (counters r) (idxForP r 0) 0 h of
        Inl e \<Rightarrow> Inl e
      | Inr h' \<Rightarrow> clear_loop r 1 h')"

section \<open>Allocation and the pool\<close>

text \<open>
  \<open>sync.Pool\<close>: \<open>Get\<close> hands out an element put earlier, or nil. The model keeps the
  elements in a list and hands out the most recent one; a pool that forgot its elements
  is the empty list, and the theorems below hold for every content of the pool.
\<close>

definition pool_Get :: "heap \<Rightarrow> refCount option \<times> heap" where
  "pool_Get h = (case pool h of [] \<Rightarrow> (None, h) | p # ps \<Rightarrow> (Some p, h\<lparr>pool := ps\<rparr>))"

definition pool_Put :: "refCount \<Rightarrow> heap \<Rightarrow> heap" where
  "pool_Put r h = h\<lparr>pool := r # pool h\<rparr>"

text \<open>\<open>make(chan struct{}, 1)\<close> and \<open>make([]int32, n)\<close> return the address they allocate.\<close>

definition make_chan :: "heap \<Rightarrow> nat \<times> heap" where
  "make_chan h = (length (chans h), h\<lparr>chans := chans h @ [0]\<rparr>)"

definition make_counters :: "int \<Rightarrow> heap \<Rightarrow> error + (nat \<times> heap)" where
  "make_counters n h =
     (if n < 0 then Inl (Panic ''makeslice: len out of range'')
      else Inr (length (arrays h), h\<lparr>arrays := arrays h @ [replicate (nat n) 0]\<rparr>))"

text \<open>The conversion \<open>uint(v)\<close> of an \<open>int\<close>.\<close>

definition uint_of :: "int \<Rightarrow> nat" where
  "uint_of v = nat (v mod 2 ^ 64)"

text \<open>
  \<open>allocateRefCount\<close> in the order of the source: reuse the given instance when its
  \<open>pbits\<close> matches, else take one from the pool (\<open>allocate_pooled\<close>), else build a new
  one (\<open>allocate_new\<close>).
\<close>

definition allocate_new :: "nat \<Rightarrow> heap \<Rightarrow> error + (refCount \<times> heap)" where
  "allocate_new pb h =
     (case make_counters (push_bit slotsPerCacheLineBits (push_bit pb 1)) h of
        Inl e \<Rightarrow> Inl e
      | Inr (a, h1) \<Rightarrow>
          let newRc = \<lparr>pbits = pb, counters = a, offset = 0, waitch = None\<rparr>;
              nextRc = newRc\<lparr>offset := offset newRc + 1\<rparr>;
              h2 = pool_Put nextRc h1;
              (c, h3) = make_chan h2
          in Inr (newRc\<lparr>waitch := Some c\<rparr>, h3))"

definition allocate_pooled :: "nat \<Rightarrow> heap \<Rightarrow> error + (refCount \<times> heap)" where
  "allocate_pooled pb h =
     (case pool_Get h of
        (Some pooledRc, h1) \<Rightarrow>
          if pbits pooledRc = pb
          then let h2 = (if offset pooledRc < push_bit slotsPerCacheLineBits 1 - 1
                         then pool_Put (pooledRc\<lparr>offset := offset pooledRc + 1\<rparr>) h1
                         else h1);
                   (c, h3) = make_chan h2
               in Inr (pooledRc\<lparr>waitch := Some c\<rparr>, h3)
          else allocate_new pb h1
      | (None, h1) \<Rightarrow> allocate_new pb h1)"

definition allocateRefCount :: "refCount option \<Rightarrow> heap \<Rightarrow> error + (refCount \<times> heap)" where
  "allocateRefCount reuse h =
     (let pb = uint_of (roundNearestPowerOf2 (gomaxprocs + 1))
      in case reuse of
           Some r \<Rightarrow>
             if pbits r = pb
             then (case clear r h of Inl e \<Rightarrow> Inl e | Inr h' \<Rightarrow> Inr (r, h'))
             else allocate_pooled pb h
         | None \<Rightarrow> allocate_pooled pb h)"

section \<open>LRMutex and its tokens\<close>

text \<open>
  \<open>once\<close> is whether \<open>sync.Once\<close> has run, \<open>wmu\<close> whether the writer mutex is held. A
  pointer to a \<open>refCount\<close> is \<open>None\<close> when nil; a \<open>refCount\<close> is never written after its
  allocation, so the pointer is modelled by its target. The mutex a token points to is
  passed to the token's operations and returned by them, so the field \<open>l\<close> of
  \<open>LockToken\<close> has no counterpart.
\<close>

record LRMutex =
  once :: bool
  state :: int32
  wmu :: bool
  refCounts :: "refCount option list"

definition zero_LRMutex :: LRMutex where
  "zero_LRMutex = \<lparr>once = False, state = 0, wmu = False, refCounts = [None, None]\<rparr>"

record LockToken =
  nonzero :: bool
  startIdx :: byte
  incrs :: byte

definition zero_LockToken :: LockToken where
  "zero_LockToken = \<lparr>nonzero = False, startIdx = 0, incrs = 0\<rparr>"

record RLockToken =
  idx :: byte
  tok :: int16
  rc :: "refCount option"

definition zero_RLockToken :: RLockToken where
  "zero_RLockToken = \<lparr>idx = 0, tok = 0, rc = None\<rparr>"

definition init :: "LRMutex \<Rightarrow> heap \<Rightarrow> error + (LRMutex \<times> heap)" where
  "init l h =
     (let l0 = l\<lparr>state := 0\<rparr>
      in case allocateRefCount None h of
           Inl e \<Rightarrow> Inl e
         | Inr (r0, h0) \<Rightarrow>
             let l1 = l0\<lparr>refCounts := (refCounts l0)[0 := Some r0]\<rparr>
             in case allocateRefCount None h0 of
                  Inl e \<Rightarrow> Inl e
                | Inr (r1, h1) \<Rightarrow> Inr (l1\<lparr>refCounts := (refCounts l1)[1 := Some r1]\<rparr>, h1))"

text \<open>\<open>l.once.Do(l.init)\<close>.\<close>

definition once_Do_init :: "LRMutex \<Rightarrow> heap \<Rightarrow> error + (LRMutex \<times> heap)" where
  "once_Do_init l h =
     (if once l then Inr (l, h)
      else case init l h of
             Inl e \<Rightarrow> Inl e
           | Inr (l', h') \<Rightarrow> Inr (l'\<lparr>once := True\<rparr>, h'))"

definition Lock :: "LRMutex \<Rightarrow> heap \<Rightarrow> error + (LockToken \<times> LRMutex \<times> heap)" where
  "Lock l h =
     (case once_Do_init l h of
        Inl e \<Rightarrow> Inl e
      | Inr (l1, h1) \<Rightarrow>
          if wmu l1 then Inl Blocked
          else let l2 = l1\<lparr>wmu := True\<rparr>;
                   leftRight = signed_drop_bit 1 (state l2)
               in Inr (\<lparr>nonzero = True, startIdx = ucast (rem32 (leftRight + 1) 2), incrs = 0\<rparr>,
                       l2, h1))"

definition waitForNonVersionIndex ::
  "int32 \<Rightarrow> LRMutex \<Rightarrow> heap \<Rightarrow> error + (LRMutex \<times> heap)" where
  "waitForNonVersionIndex st l h =
     (let i = sint (rem32 ((st AND 1) + 1) 2)
      in if 0 \<le> i \<and> nat i < length (refCounts l)
         then (case refCounts l ! nat i of
                 None \<Rightarrow> Inl NilDereference
               | Some r \<Rightarrow>
                   (case wait r h of
                      Inl e \<Rightarrow> Inl e
                    | Inr h1 \<Rightarrow>
                        (case allocateRefCount (Some r) h1 of
                           Inl e \<Rightarrow> Inl e
                         | Inr (r', h2) \<Rightarrow>
                             Inr (l\<lparr>refCounts := (refCounts l)[nat i := Some r']\<rparr>, h2))))
         else Inl IndexOutOfRange)"

definition Next ::
  "LockToken \<Rightarrow> LRMutex \<Rightarrow> heap \<Rightarrow> error + (bool \<times> LockToken \<times> LRMutex \<times> heap)" where
  "Next w l h =
     (if \<not> nonzero w then Inl (Panic ''Use of a zero LockToken is invalid.'')
      else if 3 \<le> incrs w
      then Inl (Panic ''Cannot call Next() again after it has returned false.'')
      else if incrs w = 0 then Inr (True, w\<lparr>incrs := incrs w + 1\<rparr>, l, h)
      else if incrs w = 2
      then (if wmu l then Inr (False, w\<lparr>incrs := incrs w + 1\<rparr>, l\<lparr>wmu := False\<rparr>, h)
            else Inl (Panic ''sync: unlock of unlocked mutex''))
      else
        let st = state l;
            newLeftRight = rem32 (signed_drop_bit 1 st + 1) 2;
            newState = push_bit 1 newLeftRight OR (st AND 1);
            l1 = l\<lparr>state := newState\<rparr>;
            st1 = newState
        in case waitForNonVersionIndex st1 l1 h of
             Inl e \<Rightarrow> Inl e
           | Inr (l2, h2) \<Rightarrow>
               let newVersionIndex = rem32 ((st1 AND 1) + 1) 2;
                   newState2 = (st1 AND 2) OR newVersionIndex;
                   l3 = l2\<lparr>state := newState2\<rparr>;
                   st2 = newState2
               in case waitForNonVersionIndex st2 l3 h2 of
                    Inl e \<Rightarrow> Inl e
                  | Inr (l4, h4) \<Rightarrow>
                      let w' = w\<lparr>incrs := incrs w + 1\<rparr>
                      in Inr (incrs w' < 3, w', l4, h4))"

definition LockToken_Idx :: "LockToken \<Rightarrow> error + int" where
  "LockToken_Idx w =
     (if \<not> nonzero w then Inl (Panic ''Use of a zero LockToken is invalid.'')
      else if incrs w = 0 then Inl (Panic ''Cannot call Idx() before calling Next().'')
      else if 2 < incrs w
      then Inl (Panic ''Cannot call Idx() again after Next() has returned false.'')
      else Inr (uint (startIdx w + incrs w - 1) smod 2))"

definition RLock :: "LRMutex \<Rightarrow> heap \<Rightarrow> error + (RLockToken \<times> LRMutex \<times> heap)" where
  "RLock l h =
     (case once_Do_init l h of
        Inl e \<Rightarrow> Inl e
      | Inr (l1, h1) \<Rightarrow>
          let state0 = state l1;
              i = sint (state0 AND 1)
          in if 0 \<le> i \<and> nat i < length (refCounts l1)
             then (case refCounts l1 ! nat i of
                     None \<Rightarrow> Inl NilDereference
                   | Some r \<Rightarrow>
                       (case acquire r h1 of
                          Inl e \<Rightarrow> Inl e
                        | Inr (t, h2) \<Rightarrow>
                            if sint (word_of_int t :: int16) \<noteq> t
                            then Inl (Panic ''internal state error: refCount returned a token larger than 2^16.'')
                            else let state1 = state l1;
                                     readIdx = signed_drop_bit 1 state1 AND 1
                                 in Inr (\<lparr>idx = ucast readIdx, tok = word_of_int t, rc = Some r\<rparr>,
                                         l1, h2)))
             else Inl IndexOutOfRange)"

text \<open>
  A reader can lose the processor between its load of \<open>state0\<close> and the rest of \<open>RLock\<close>.
  \<open>RLock_after_load\<close> is that rest, run on the mutex and heap of the moment it resumes;
  \<open>RLock\<close> is \<open>once.Do\<close>, the load, and this (lemma \<open>RLock_split\<close>).
\<close>

definition RLock_after_load ::
  "int32 \<Rightarrow> LRMutex \<Rightarrow> heap \<Rightarrow> error + (RLockToken \<times> LRMutex \<times> heap)" where
  "RLock_after_load state0 l1 h1 =
     (let i = sint (state0 AND 1)
      in if 0 \<le> i \<and> nat i < length (refCounts l1)
         then (case refCounts l1 ! nat i of
                 None \<Rightarrow> Inl NilDereference
               | Some r \<Rightarrow>
                   (case acquire r h1 of
                      Inl e \<Rightarrow> Inl e
                    | Inr (t, h2) \<Rightarrow>
                        if sint (word_of_int t :: int16) \<noteq> t
                        then Inl (Panic ''internal state error: refCount returned a token larger than 2^16.'')
                        else let state1 = state l1;
                                 readIdx = signed_drop_bit 1 state1 AND 1
                             in Inr (\<lparr>idx = ucast readIdx, tok = word_of_int t, rc = Some r\<rparr>,
                                     l1, h2)))
         else Inl IndexOutOfRange)"

definition RLockToken_Idx :: "RLockToken \<Rightarrow> error + int" where
  "RLockToken_Idx r =
     (if rc r = None then Inl (Panic ''Use of a zero RLockToken is invalid.'')
      else if tok r = - 1 then Inl (Panic ''Use of a RLockToken after RUnlock is invalid.'')
      else Inr (uint (idx r)))"

text \<open>
  \<open>RUnlock\<close> has a value receiver: it works on a copy of the caller's token. The
  assignment \<open>r.tok = -1\<close> at its end changes that copy, which is dropped at the return,
  so the model returns the heap only and the caller's token stays as it was.
\<close>

definition RUnlock :: "RLockToken \<Rightarrow> heap \<Rightarrow> error + heap" where
  "RUnlock r h =
     (case rc r of
        None \<Rightarrow> Inl (Panic ''Use of a zero RLockToken is invalid.'')
      | Some c \<Rightarrow>
          if tok r = - 1 then Inl (Panic ''Use of a RLockToken after RUnlock is invalid.'')
          else release c (sint (tok r)) h)"

section \<open>The shard bits the comment describes\<close>

text \<open>
  The comment on \<open>pbits\<close>: the number of shards, \<open>GOMAXPROCS + 1\<close>, goes up to a power of
  two, and \<open>pbits\<close> is the number of bits that address that many shards. The shard numbers
  \<open>0, \<dots>, maxParallelism\<close> take as many bits as \<open>maxParallelism\<close> has, which is also the
  logarithm of the power of two.
\<close>

fun bits_needed :: "nat \<Rightarrow> nat" where
  "bits_needed n = (if n = 0 then 0 else Suc (bits_needed (n div 2)))"

definition shardBits_spec :: "int \<Rightarrow> nat" where
  "shardBits_spec maxParallelism = bits_needed (nat maxParallelism)"

section \<open>Slots and well-formedness\<close>

text \<open>
  The vocabulary of the theorems: the value of a slot, whether an index is inside its
  array, the heap with one slot overwritten, and how a call ended.
\<close>

definition slot :: "heap \<Rightarrow> nat \<Rightarrow> int \<Rightarrow> int32" where
  "slot h a i = arrays h ! a ! nat i"

definition valid_slot :: "heap \<Rightarrow> nat \<Rightarrow> int \<Rightarrow> bool" where
  "valid_slot h a i \<longleftrightarrow> a < length (arrays h) \<and> 0 \<le> i \<and> nat i < length (arrays h ! a)"

definition slot_set :: "nat \<Rightarrow> int \<Rightarrow> int32 \<Rightarrow> heap \<Rightarrow> heap" where
  "slot_set a i v h = h\<lparr>arrays := (arrays h)[a := (arrays h ! a)[nat i := v]]\<rparr>"

definition outcome :: "error + 'a \<Rightarrow> error option" where
  "outcome x = (case x of Inl e \<Rightarrow> Some e | Inr y \<Rightarrow> None)"

text \<open>
  What \<open>allocateRefCount\<close> establishes for every \<open>refCount\<close> it hands out or pools: the
  offset lies inside a cache line, and the array has a cache line for each of the
  \<open>2 ^ pbits\<close> shards. The bound on \<open>pbits\<close> keeps the number of shards inside \<open>int32\<close>.
  \<open>wf_heap\<close> asks it of the pool, \<open>wf_LRMutex\<close> of the two counters of an initialised
  mutex, whose \<open>state\<close> has the two bits only. Allocation and the counter operations keep
  the arrays they find at their lengths (\<open>heap_extends\<close>).
\<close>

definition wf_refCount :: "refCount \<Rightarrow> heap \<Rightarrow> bool" where
  "wf_refCount r h \<longleftrightarrow>
     pbits r < 31 \<and> 0 \<le> offset r \<and> offset r < 2 ^ slotsPerCacheLineBits \<and>
     counters r < length (arrays h) \<and>
     int (length (arrays h ! counters r)) = 2 ^ pbits r * 2 ^ slotsPerCacheLineBits"

definition heap_extends :: "heap \<Rightarrow> heap \<Rightarrow> bool" where
  "heap_extends h h' \<longleftrightarrow>
     length (arrays h) \<le> length (arrays h') \<and>
     (\<forall>a < length (arrays h). length (arrays h' ! a) = length (arrays h ! a))"

definition wf_heap :: "heap \<Rightarrow> bool" where
  "wf_heap h \<longleftrightarrow> (\<forall>r \<in> set (pool h). wf_refCount r h)"

definition wf_slot :: "LRMutex \<Rightarrow> heap \<Rightarrow> nat \<Rightarrow> bool" where
  "wf_slot l h i = (case refCounts l ! i of Some r \<Rightarrow> wf_refCount r h | None \<Rightarrow> False)"

definition wf_LRMutex :: "LRMutex \<Rightarrow> heap \<Rightarrow> bool" where
  "wf_LRMutex l h \<longleftrightarrow>
     length (refCounts l) = 2 \<and>
     (once l \<longrightarrow> state l \<le> 3 \<and> wf_slot l h 0 \<and> wf_slot l h 1)"

section \<open>What the loops compute\<close>

text \<open>
  The loops of \<open>wait\<close> and \<open>clear\<close>, said at once: \<open>scan_heap r i\<close> is the heap with each
  shard \<open>i, \<dots>, maxPid\<close> of \<open>r\<close> one lower, \<open>armed r i\<close> the shards among them whose
  lowered value is \<open>\<ge> 0\<close>, \<open>clear_heap r i\<close> the heap with these shards at 0. \<open>drained\<close> is a
  counter after a drain that found no reader: scanned, then cleared.
\<close>

definition scan_heap :: "refCount \<Rightarrow> int \<Rightarrow> heap \<Rightarrow> heap" where
  "scan_heap r i h =
     h\<lparr>arrays := (arrays h)[counters r :=
          map (\<lambda>k. if int k \<in> idxForP r ` {i..maxPid r}
                   then arrays h ! counters r ! k - 1
                   else arrays h ! counters r ! k)
              [0..<length (arrays h ! counters r)]]\<rparr>"

definition armed :: "refCount \<Rightarrow> int \<Rightarrow> heap \<Rightarrow> int set" where
  "armed r i h = {j \<in> {i..maxPid r}. 0 \<le>s slot h (counters r) (idxForP r j) - 1}"

definition clear_heap :: "refCount \<Rightarrow> int \<Rightarrow> heap \<Rightarrow> heap" where
  "clear_heap r i h =
     h\<lparr>arrays := (arrays h)[counters r :=
          map (\<lambda>k. if int k \<in> idxForP r ` {i..maxPid r} then 0
                   else arrays h ! counters r ! k)
              [0..<length (arrays h ! counters r)]]\<rparr>"

definition drained :: "refCount \<Rightarrow> heap \<Rightarrow> heap" where
  "drained r h = clear_heap r 0 (scan_heap r 1 h)"

section \<open>Example states\<close>

text \<open>
  A small counter of two shards at offset 3, with a neighbour at offset 4 on the same
  array; heaps where its shard 1 (slot 19) holds 0, two readers, or \<open>MaxInt32 - 1\<close>, and
  one where the neighbour's shard (slot 20) holds 7.
\<close>

definition empty_heap :: heap where
  "empty_heap = \<lparr>arrays = [], chans = [], pool = []\<rparr>"

definition example_rc :: refCount where
  "example_rc = \<lparr>pbits = 1, counters = 0, offset = 3, waitch = Some 0\<rparr>"

definition neighbour_rc :: refCount where
  "neighbour_rc = \<lparr>pbits = 1, counters = 0, offset = 4, waitch = Some 0\<rparr>"

definition example_heap :: heap where
  "example_heap = \<lparr>arrays = [replicate 32 0], chans = [0], pool = []\<rparr>"

definition busy_heap :: heap where
  "busy_heap = \<lparr>arrays = [(replicate 32 0)[19 := 2]], chans = [0], pool = []\<rparr>"

definition full_heap :: heap where
  "full_heap = \<lparr>arrays = [(replicate 32 0)[19 := 2147483646]], chans = [0], pool = []\<rparr>"

definition other_heap :: heap where
  "other_heap = \<lparr>arrays = [(replicate 32 0)[20 := 7]], chans = [0], pool = []\<rparr>"

text \<open>
  A counter whose offset is far outside a cache line, as no allocation builds it: its
  handle, 40016, does not fit \<open>int16\<close>.
\<close>

definition far_rc :: refCount where
  "far_rc = \<lparr>pbits = 1, counters = 1, offset = 40000, waitch = Some 0\<rparr>"

definition far_heap :: heap where
  "far_heap = \<lparr>arrays = [replicate 32 0, replicate 40032 0], chans = [0], pool = []\<rparr>"

definition far_mutex :: LRMutex where
  "far_mutex = \<lparr>once = True, state = 0, wmu = False, refCounts = [Some far_rc, Some example_rc]\<rparr>"

text \<open>
  The zero mutex after \<open>init\<close> on the empty heap: two counters of 256 shards on one array
  of 4096 slots, at offsets 0 and 1, and offset 2 in the pool. Then the states of a first
  write: the mutex locked, and the heap after each of the two drains.
\<close>

definition fresh_rc0 :: refCount where
  "fresh_rc0 = \<lparr>pbits = 8, counters = 0, offset = 0, waitch = Some 0\<rparr>"

definition fresh_rc1 :: refCount where
  "fresh_rc1 = \<lparr>pbits = 8, counters = 0, offset = 1, waitch = Some 1\<rparr>"

definition fresh_mutex :: LRMutex where
  "fresh_mutex = \<lparr>once = True, state = 0, wmu = False, refCounts = [Some fresh_rc0, Some fresh_rc1]\<rparr>"

definition fresh_heap :: heap where
  "fresh_heap = \<lparr>arrays = [replicate 4096 0], chans = [0, 0],
                  pool = [\<lparr>pbits = 8, counters = 0, offset = 2, waitch = None\<rparr>]\<rparr>"

definition first_token :: RLockToken where
  "first_token = \<lparr>idx = 0, tok = 16, rc = Some fresh_rc0\<rparr>"

definition locked_mutex :: LRMutex where
  "locked_mutex = \<lparr>once = True, state = 0, wmu = True,
                     refCounts = [Some fresh_rc0, Some fresh_rc1]\<rparr>"

definition first_LockToken :: LockToken where
  "first_LockToken = \<lparr>nonzero = True, startIdx = 1, incrs = 0\<rparr>"

definition after_first_drain :: heap where
  "after_first_drain = clear_heap fresh_rc1 0 (scan_heap fresh_rc1 1 fresh_heap)"

definition after_second_drain :: heap where
  "after_second_drain = clear_heap fresh_rc0 0 (scan_heap fresh_rc0 1 after_first_drain)"

text \<open>
  The states of the run with a late reader: the heap after its \<open>acquire\<close> between the
  scan and the clear of the second drain, its token, the mutex after the first write, and
  the token of the second writer.
\<close>

definition late_heap :: heap where
  "late_heap = slot_set 0 16 0 (scan_heap fresh_rc0 1 after_first_drain)"

definition late_token :: RLockToken where
  "late_token = \<lparr>idx = 1, tok = 16, rc = Some fresh_rc0\<rparr>"

definition released_mutex :: LRMutex where
  "released_mutex = \<lparr>once = True, state = 3, wmu = False,
                       refCounts = [Some fresh_rc0, Some fresh_rc1]\<rparr>"

definition second_LockToken :: LockToken where
  "second_LockToken = \<lparr>nonzero = True, startIdx = 0, incrs = 0\<rparr>"

section \<open>Lemmas\<close>

declare bits_needed.simps [simp del]

subsection \<open>Indices and slots\<close>

lemma maxPid_eq: "maxPid r = 2 ^ pbits r - 1"
  by (simp add: maxPid_def push_bit_eq_mult)

lemma and_maxPid: "p AND maxPid r = p mod 2 ^ pbits r"
  by (simp add: maxPid_eq flip: mask_eq_exp_minus_1 take_bit_eq_mask take_bit_eq_mod)

lemma idxForP_eq: "idxForP r p = (p mod 2 ^ pbits r) * 16 + offset r"
  by (simp add: idxForP_def and_maxPid slotsPerCacheLineBits_def push_bit_eq_mult)

lemma idxForP_self: "0 \<le> i \<Longrightarrow> i \<le> maxPid r \<Longrightarrow> idxForP r i = i * 16 + offset r"
  by (simp add: idxForP_eq maxPid_eq)

lemma idxForP_bounds:
  assumes "0 \<le> offset r" "offset r < 16"
  shows "0 \<le> idxForP r p" "idxForP r p < 2 ^ pbits r * 16"
proof -
  define m where "m = p mod 2 ^ pbits r"
  define N :: int where "N = 2 ^ pbits r"
  have m: "0 \<le> m" "m < N"
    by (simp_all add: m_def N_def)
  have e: "idxForP r p = m * 16 + offset r"
    by (simp add: idxForP_eq m_def)
  show "0 \<le> idxForP r p"
    using m(1) assms(1) unfolding e by simp
  have "m * 16 + offset r < N * 16"
    using m assms by arith
  then show "idxForP r p < 2 ^ pbits r * 16"
    unfolding e N_def .
qed

lemma idxForP_valid: "wf_refCount r h \<Longrightarrow> valid_slot h (counters r) (idxForP r p)"
  using idxForP_bounds [of r p]
  by (auto simp add: wf_refCount_def valid_slot_def slotsPerCacheLineBits_def)

lemma AddInt32_valid:
  "valid_slot h a i \<Longrightarrow> AddInt32 a i d h = Inr (slot h a i + d, slot_set a i (slot h a i + d) h)"
  by (simp add: AddInt32_def valid_slot_def slot_def slot_set_def Let_def)

lemma AddInt32_invalid: "\<not> valid_slot h a i \<Longrightarrow> AddInt32 a i d h = Inl IndexOutOfRange"
  by (auto simp add: AddInt32_def valid_slot_def)


lemma slot_set_simps [simp]:
  "chans (slot_set a i v h) = chans h"
  "pool (slot_set a i v h) = pool h"
  "length (arrays (slot_set a i v h)) = length (arrays h)"
  by (simp_all add: slot_set_def)

lemma valid_slot_slot_set [simp]:
  "valid_slot (slot_set a i v h) a' i' = valid_slot h a' i'"
  by (cases "a' = a") (auto simp add: valid_slot_def slot_set_def)

lemma slot_slot_set_same [simp]:
  "valid_slot h a i \<Longrightarrow> slot (slot_set a i v h) a i = v"
  by (simp add: valid_slot_def slot_set_def slot_def)

lemma slot_slot_set_other:
  "a' \<noteq> a \<or> nat i' \<noteq> nat i \<Longrightarrow> slot (slot_set a i v h) a' i' = slot h a' i'"
  by (cases "a' = a"; cases "a < length (arrays h)")
     (auto simp add: slot_set_def slot_def list_update_beyond)

lemma slot_set_id: "slot_set a i (slot h a i) h = h"
  by (simp add: slot_set_def slot_def)

lemma slot_set_overwrite: "slot_set a i v (slot_set a i u h) = slot_set a i v h"
  by (cases "a < length (arrays h)") (simp_all add: slot_set_def list_update_beyond)

subsection \<open>acquire and release, unfolded\<close>

lemma acquire_spec:
  assumes "valid_slot h (counters r) (idxForP r (getp + 1))"
  shows "acquire r h =
     (if slot h (counters r) (idxForP r (getp + 1)) + 1 = MaxInt32
      then Inl (Panic ''refCount does not support more than 2 billion acquires.'')
      else Inr (idxForP r (getp + 1),
                slot_set (counters r) (idxForP r (getp + 1))
                  (slot h (counters r) (idxForP r (getp + 1)) + 1) h))"
  using assms by (simp add: acquire_def AddInt32_valid Let_def)

lemma release_unfold:
  assumes "valid_slot h (counters r) t" and "valid_slot h (counters r) (idxForP r 0)"
  shows "release r t h =
     (let h1 = slot_set (counters r) t (slot h (counters r) t - 1) h
      in if 0 \<le>s slot h (counters r) t - 1 then Inr h1
         else let v0 = slot h1 (counters r) (idxForP r 0) - 1;
                  h2 = slot_set (counters r) (idxForP r 0) v0 h1
              in if v0 = 0 then chan_send (waitch r) h2 else Inr h2)"
  using assms by (simp add: release_def AddInt32_valid Let_def)

subsection \<open>Computed constants and the example counter\<close>

lemma pbits_computed: "uint_of (roundNearestPowerOf2 (gomaxprocs + 1)) = 8"
  by (simp add: roundNearestPowerOf2_def gomaxprocs_def uint_of_def)

lemma example_idx: "idxForP example_rc 1 = 19" "idxForP example_rc 0 = 3"
  by (simp_all add: idxForP_eq example_rc_def)

lemma rounded_computed: "roundNearestPowerOf2 (gomaxprocs + 1) = 8"
  by (simp add: roundNearestPowerOf2_def gomaxprocs_def)

lemma example_fields [simp]:
  "counters example_rc = 0" "waitch example_rc = Some 0" "pbits example_rc = 1"
  "offset example_rc = 3"
  by (simp_all add: example_rc_def)

lemma example_valid: "0 \<le> i \<Longrightarrow> i < 32 \<Longrightarrow> valid_slot example_heap 0 i"
  by (simp add: valid_slot_def example_heap_def)

lemma example_slot: "0 \<le> i \<Longrightarrow> i < 32 \<Longrightarrow> slot example_heap 0 i = 0"
  by (simp add: slot_def example_heap_def)

lemma example_idx_bounds: "0 \<le> idxForP example_rc p \<and> idxForP example_rc p < 32"
  using idxForP_bounds [of example_rc p] by simp

subsection \<open>RLock and the fresh mutex\<close>

lemma and_1_cases: "(x::int32) AND 1 = 0 \<or> x AND 1 = 1"
  by (simp add: and_one_eq mod_2_eq_odd)

lemma sint_and_1: "sint ((x::int32) AND 1) = 0 \<or> sint (x AND 1) = 1"
  using and_1_cases [of x] by auto

lemma int16_fits: "sint (word_of_int t :: int16) = t \<longleftrightarrow> - 32768 \<le> t \<and> t \<le> 32767"
  by (auto simp add: sint_sbintrunc' signed_take_bit_int_eq_self_iff)

lemma RLock_unfold:
  assumes "once_Do_init l h = Inr (l1, h1)" and "length (refCounts l1) = 2"
    and "refCounts l1 ! nat (sint (state l1 AND 1)) = Some r"
    and "acquire r h1 = Inr (t, h2)"
  shows "RLock l h =
     (if t < - 32768 \<or> 32767 < t
      then Inl (Panic ''internal state error: refCount returned a token larger than 2^16.'')
      else Inr (\<lparr>idx = ucast (signed_drop_bit 1 (state l1) AND 1), tok = word_of_int t,
                 rc = Some r\<rparr>, l1, h2))"
proof -
  have i: "0 \<le> sint (state l1 AND 1) \<and> nat (sint (state l1 AND 1)) < 2"
    using sint_and_1 [of "state l1"] by auto
  show ?thesis
    using assms i by (auto simp add: RLock_def Let_def int16_fits)
qed

lemma once_Do_init_zero: "once_Do_init zero_LRMutex empty_heap = Inr (fresh_mutex, fresh_heap)"
  by (simp add: once_Do_init_def init_def zero_LRMutex_def allocateRefCount_def pbits_computed
      allocate_pooled_def allocate_new_def pool_Get_def pool_Put_def make_chan_def
      make_counters_def empty_heap_def slotsPerCacheLineBits_def Let_def uint_of_def
      rounded_computed fresh_mutex_def fresh_heap_def fresh_rc0_def fresh_rc1_def)

lemma fresh_valid: "0 \<le> i \<Longrightarrow> i < 4096 \<Longrightarrow> valid_slot fresh_heap 0 i"
  by (simp add: valid_slot_def fresh_heap_def)

lemma fresh_slot: "0 \<le> i \<Longrightarrow> i < 4096 \<Longrightarrow> slot fresh_heap 0 i = 0"
  by (simp add: slot_def fresh_heap_def)

lemma fresh_rc0_fields [simp]:
  "counters fresh_rc0 = 0" "waitch fresh_rc0 = Some 0" "pbits fresh_rc0 = 8" "offset fresh_rc0 = 0"
  by (simp_all add: fresh_rc0_def)

lemma fresh_rc0_idx: "idxForP fresh_rc0 1 = 16" "idxForP fresh_rc0 0 = 0"
  by (simp_all add: idxForP_eq)

lemma acquire_fresh: "acquire fresh_rc0 fresh_heap = Inr (16, slot_set 0 16 1 fresh_heap)"
  using acquire_spec [of fresh_heap fresh_rc0]
  by (simp add: getp_def fresh_rc0_idx fresh_valid fresh_slot MaxInt32_def)

lemma RUnlock_forgets:
  "RUnlock r h = Inr h' \<Longrightarrow> RUnlock r h' \<noteq> Inl (Panic ''Use of a RLockToken after RUnlock is invalid.'')"
  by (auto simp add: RUnlock_def release_def AddInt32_def chan_send_def Let_def
      split: option.splits if_splits sum.splits)

lemma far_rc_fields [simp]:
  "counters far_rc = 1" "waitch far_rc = Some 0" "pbits far_rc = 1" "offset far_rc = 40000"
  by (simp_all add: far_rc_def)

lemma acquire_far: "acquire far_rc far_heap = Inr (40016, slot_set 1 40016 1 far_heap)"
proof -
  have i: "idxForP far_rc (getp + 1) = 40016"
    by (simp add: idxForP_eq getp_def)
  have v: "valid_slot far_heap 1 40016" and s: "slot far_heap 1 40016 = 0"
    by (simp_all add: valid_slot_def slot_def far_heap_def)
  have "valid_slot far_heap (counters far_rc) (idxForP far_rc (getp + 1))"
    using v by (simp add: i)
  then show ?thesis
    using s by (simp add: acquire_spec i MaxInt32_def)
qed

subsection \<open>The loop of wait\<close>

lemma wf_refCount_slot_set [simp]: "wf_refCount r (slot_set a i v h) = wf_refCount r h"
  by (cases "a = counters r"; cases "a < length (arrays h)")
     (auto simp add: wf_refCount_def slot_set_def)

lemma idxForP_inj:
  assumes "0 \<le> i" "i \<le> maxPid r" "0 \<le> j" "j \<le> maxPid r" "idxForP r i = idxForP r j"
  shows "i = j"
  using assms by (simp add: idxForP_self)

lemma wf_offset: "wf_refCount r h \<Longrightarrow> 0 \<le> offset r \<and> offset r < 16"
  by (simp add: wf_refCount_def slotsPerCacheLineBits_def)

lemma scan_heap_done:
  assumes "maxPid r < i"
  shows "scan_heap r i h = h"
proof -
  have "{i..maxPid r} = {}" using assms by simp
  then show ?thesis
    by (simp add: scan_heap_def map_nth)
qed

lemma idxForP_notin_later:
  assumes "0 \<le> i" "i \<le> maxPid r"
  shows "idxForP r i \<notin> idxForP r ` {i + 1..maxPid r}"
proof
  assume "idxForP r i \<in> idxForP r ` {i + 1..maxPid r}"
  then obtain j where j: "i + 1 \<le> j" "j \<le> maxPid r" "idxForP r i = idxForP r j"
    by auto
  then have "i = j"
    using assms by (intro idxForP_inj [of i r j]) simp_all
  then show False using j(1) by simp
qed

lemma scan_heap_step:
  assumes wf: "wf_refCount r h" and i: "0 \<le> i" "i \<le> maxPid r"
  shows "scan_heap r (i + 1)
           (slot_set (counters r) (idxForP r i) (slot h (counters r) (idxForP r i) - 1) h)
         = scan_heap r i h"
proof -
  let ?a = "counters r" and ?xs = "arrays h ! counters r" and ?n = "nat (idxForP r i)"
  let ?v = "slot h (counters r) (idxForP r i) - 1"
  have a: "?a < length (arrays h)"
    using wf by (simp add: wf_refCount_def)
  have v: "valid_slot h ?a (idxForP r i)"
    using wf by (rule idxForP_valid)
  then have n: "?n < length ?xs" and nn: "0 \<le> idxForP r i"
    by (simp_all add: valid_slot_def)
  have notin: "idxForP r i \<notin> idxForP r ` {i + 1..maxPid r}"
    using i by (rule idxForP_notin_later)
  have split: "{i..maxPid r} = insert i {i + 1..maxPid r}"
    using i by auto
  have m: "map (\<lambda>k. if int k \<in> idxForP r ` {i + 1..maxPid r}
                   then ?xs[?n := ?v] ! k - 1 else ?xs[?n := ?v] ! k) [0..<length ?xs]
        = map (\<lambda>k. if int k \<in> idxForP r ` {i..maxPid r}
                   then ?xs ! k - 1 else ?xs ! k) [0..<length ?xs]"
  proof (rule map_cong [OF refl])
    fix k assume "k \<in> set [0..<length ?xs]"
    then have k: "k < length ?xs" by simp
    show "(if int k \<in> idxForP r ` {i + 1..maxPid r}
                   then ?xs[?n := ?v] ! k - 1 else ?xs[?n := ?v] ! k)
          = (if int k \<in> idxForP r ` {i..maxPid r} then ?xs ! k - 1 else ?xs ! k)"
    proof (cases "k = ?n")
      case True
      then have ik: "int k = idxForP r i" using nn by simp
      show ?thesis
        using notin n nn by (simp add: ik split True slot_def)
    next
      case False
      then have "int k \<noteq> idxForP r i" using nn by auto
      then show ?thesis
        using False by (simp add: split)
    qed
  qed
  show ?thesis
    by (simp add: scan_heap_def slot_set_def a m cong: if_cong)
qed

lemma armed_step:
  assumes wf: "wf_refCount r h" and i: "0 \<le> i" "i \<le> maxPid r"
  shows "armed r (i + 1)
           (slot_set (counters r) (idxForP r i) v h)
         = armed r i h - {i}"
proof -
  have "slot (slot_set (counters r) (idxForP r i) v h) (counters r) (idxForP r j)
        = slot h (counters r) (idxForP r j)" if "i + 1 \<le> j" "j \<le> maxPid r" for j
  proof -
    have "idxForP r j \<noteq> idxForP r i"
      using idxForP_inj [of i r j] that i by auto
    moreover have "0 \<le> idxForP r j" "0 \<le> idxForP r i"
      using idxForP_bounds(1) wf_offset [OF wf] by simp_all
    ultimately show ?thesis
      by (simp add: slot_slot_set_other)
  qed
  then show ?thesis
    by (auto simp add: armed_def)
qed

lemma finite_armed [simp]: "finite (armed r i h)"
  by (rule finite_subset [of _ "{i..maxPid r}"]) (auto simp add: armed_def)

declare wait_loop.simps [simp del] clear_loop.simps [simp del]

lemma wait_loop_spec:
  assumes "wf_refCount r h" and "0 \<le> i"
  shows "wait_loop r i p h = Inr (p + of_nat (card (armed r i h)), scan_heap r i h)"
  using assms
proof (induction "nat (maxPid r + 1 - i)" arbitrary: i p h)
  case 0
  then have gt: "maxPid r < i" by simp
  then have "armed r i h = {}" by (auto simp add: armed_def)
  then show ?case
    using gt by (subst wait_loop.simps) (simp add: scan_heap_done)
next
  case (Suc n)
  then have le: "i \<le> maxPid r" by simp
  let ?v = "slot h (counters r) (idxForP r i) - 1"
  let ?h = "slot_set (counters r) (idxForP r i) ?v h"
  let ?p = "if 0 \<le>s ?v then p + 1 else p"
  have v: "valid_slot h (counters r) (idxForP r i)"
    using Suc.prems(1) by (rule idxForP_valid)
  have add: "AddInt32 (counters r) (idxForP r i) (- 1) h = Inr (?v, ?h)"
    using v by (simp add: AddInt32_valid)
  have "n = nat (maxPid r + 1 - (i + 1))"
    using Suc.hyps(2) by simp
  then have ih: "wait_loop r (i + 1) ?p ?h
      = Inr (?p + of_nat (card (armed r (i + 1) ?h)), scan_heap r (i + 1) ?h)"
    using Suc.prems by (intro Suc.hyps(1)) simp_all
  have ar: "armed r (i + 1) ?h = armed r i h - {i}"
    using Suc.prems le by (simp add: armed_step)
  have mem: "i \<in> armed r i h \<longleftrightarrow> 0 \<le>s ?v"
    using le by (simp add: armed_def)
  have cnt: "?p + of_nat (card (armed r i h - {i})) = p + of_nat (card (armed r i h))"
  proof (cases "0 \<le>s ?v")
    case True
    then have "i \<in> armed r i h" using mem by simp
    then have "card (armed r i h) = Suc (card (armed r i h - {i}))"
      using card_Suc_Diff1 [of "armed r i h" i] by simp
    then show ?thesis using True by simp
  next
    case False
    then have "i \<notin> armed r i h" using mem by simp
    then show ?thesis using False by simp
  qed
  have sh: "scan_heap r (i + 1) ?h = scan_heap r i h"
    using Suc.prems le by (rule scan_heap_step)
  have "wait_loop r i p h = wait_loop r (i + 1) ?p ?h"
    using le add by (subst wait_loop.simps) simp
  then show ?case
    by (simp only: ih ar cnt sh)
qed

lemma sless_of_nat:
  assumes "n < 2 ^ 31"
  shows "0 <s (of_nat n :: int32) \<longleftrightarrow> 0 < n"
proof -
  have "int n < 2 ^ 31" using assms by (simp flip: of_nat_less_iff)
  then have "signed_take_bit 31 (int n) = int n"
    by (simp add: signed_take_bit_int_eq_self_iff)
  then have "sint (of_nat n :: int32) = int n"
    by (simp add: signed_of_nat)
  then show ?thesis
    by (simp add: word_sless_alt)
qed

lemma armed_card_bound:
  assumes "wf_refCount r h"
  shows "card (armed r 1 h) < 2 ^ 31"
proof -
  have "armed r 1 h \<subseteq> {1..maxPid r}"
    by (auto simp add: armed_def)
  then have "card (armed r 1 h) \<le> card {1..maxPid r}"
    by (intro card_mono) simp_all
  also have "\<dots> = nat (maxPid r)"
    by simp
  also have "\<dots> < 2 ^ pbits r"
    by (simp add: maxPid_eq nat_less_iff)
  also have "(2::nat) ^ pbits r \<le> 2 ^ 31"
    using assms by (intro power_increasing) (simp_all add: wf_refCount_def)
  finally show ?thesis .
qed

lemma scan_heap_simps [simp]:
  "chans (scan_heap r i h) = chans h"
  "pool (scan_heap r i h) = pool h"
  "length (arrays (scan_heap r i h)) = length (arrays h)"
  by (simp_all add: scan_heap_def)

lemma valid_slot_scan_heap [simp]:
  "valid_slot (scan_heap r i h) a k = valid_slot h a k"
  by (cases "a = counters r") (auto simp add: valid_slot_def scan_heap_def)

lemma slot_scan_heap:
  assumes "valid_slot h (counters r) k"
  shows "slot (scan_heap r i h) (counters r) k =
     (if k \<in> idxForP r ` {i..maxPid r} then slot h (counters r) k - 1 else slot h (counters r) k)"
  using assms by (simp add: valid_slot_def scan_heap_def slot_def)

lemma slot_scan_heap_other:
  "a \<noteq> counters r \<Longrightarrow> slot (scan_heap r i h) a k = slot h a k"
  by (simp add: scan_heap_def slot_def)

lemma idxForP_0_notin:
  assumes "1 \<le> i"
  shows "idxForP r 0 \<notin> idxForP r ` {i..maxPid r}"
proof
  assume "idxForP r 0 \<in> idxForP r ` {i..maxPid r}"
  then obtain j where j: "i \<le> j" "j \<le> maxPid r" "idxForP r 0 = idxForP r j"
    by auto
  then have "0 = j"
    using assms by (intro idxForP_inj [of 0 r j]) simp_all
  then show False using j(1) assms by simp
qed

lemma wait_unfold:
  assumes "wf_refCount r h"
  shows "wait r h =
     (let n = card (armed r 1 h);
          h1 = scan_heap r 1 h
      in if n = 0 then Inr h1
         else let v = slot h (counters r) (idxForP r 0) + of_nat n;
                  h2 = slot_set (counters r) (idxForP r 0) v h1
              in if 0 <s v then chan_recv (waitch r) h2 else Inr h2)"
proof -
  have v: "valid_slot h (counters r) (idxForP r 0)"
    using assms by (rule idxForP_valid)
  have s: "slot (scan_heap r 1 h) (counters r) (idxForP r 0) = slot h (counters r) (idxForP r 0)"
    using v idxForP_0_notin [of 1 r] by (simp add: slot_scan_heap)
  show ?thesis
    using v s
    by (simp add: wait_def wait_loop_spec [OF assms] sless_of_nat [OF armed_card_bound [OF assms]]
        AddInt32_valid Let_def add.commute)
qed

subsection \<open>The loop of clear\<close>

lemma clear_heap_done:
  assumes "maxPid r < i"
  shows "clear_heap r i h = h"
proof -
  have "{i..maxPid r} = {}" using assms by simp
  then show ?thesis
    by (simp add: clear_heap_def map_nth)
qed

lemma clear_heap_step:
  assumes wf: "wf_refCount r h" and i: "0 \<le> i" "i \<le> maxPid r"
  shows "clear_heap r (i + 1) (slot_set (counters r) (idxForP r i) 0 h) = clear_heap r i h"
proof -
  let ?a = "counters r" and ?xs = "arrays h ! counters r" and ?n = "nat (idxForP r i)"
  have a: "?a < length (arrays h)"
    using wf by (simp add: wf_refCount_def)
  have "valid_slot h ?a (idxForP r i)"
    using wf by (rule idxForP_valid)
  then have n: "?n < length ?xs" and nn: "0 \<le> idxForP r i"
    by (simp_all add: valid_slot_def)
  note notin = idxForP_notin_later [OF i]
  have split: "{i..maxPid r} = insert i {i + 1..maxPid r}"
    using i by auto
  have m: "map (\<lambda>k. if int k \<in> idxForP r ` {i + 1..maxPid r}
                   then 0 else ?xs[?n := 0] ! k) [0..<length ?xs]
        = map (\<lambda>k. if int k \<in> idxForP r ` {i..maxPid r}
                   then 0 else ?xs ! k) [0..<length ?xs]"
  proof (rule map_cong [OF refl])
    fix k assume "k \<in> set [0..<length ?xs]"
    then have k: "k < length ?xs" by simp
    show "(if int k \<in> idxForP r ` {i + 1..maxPid r} then 0 else ?xs[?n := 0] ! k)
          = (if int k \<in> idxForP r ` {i..maxPid r} then 0 else ?xs ! k)"
    proof (cases "k = ?n")
      case True
      then have ik: "int k = idxForP r i" using nn by simp
      show ?thesis
        using notin n nn by (simp add: ik split True)
    next
      case False
      then have "int k \<noteq> idxForP r i" using nn by auto
      then show ?thesis
        using False by (simp add: split)
    qed
  qed
  show ?thesis
    by (simp add: clear_heap_def slot_set_def a m cong: if_cong)
qed

lemma StoreInt32_valid:
  "valid_slot h a i \<Longrightarrow> StoreInt32 a i v h = Inr (slot_set a i v h)"
  by (simp add: StoreInt32_def valid_slot_def slot_set_def)

lemma clear_loop_spec:
  assumes "wf_refCount r h" and "0 \<le> i"
  shows "clear_loop r i h = Inr (clear_heap r i h)"
  using assms
proof (induction "nat (maxPid r + 1 - i)" arbitrary: i h)
  case 0
  then have gt: "maxPid r < i" by simp
  then show ?case
    by (subst clear_loop.simps) (simp add: clear_heap_done)
next
  case (Suc n)
  then have le: "i \<le> maxPid r" by simp
  let ?h = "slot_set (counters r) (idxForP r i) 0 h"
  have st: "StoreInt32 (counters r) (idxForP r i) 0 h = Inr ?h"
    using Suc.prems(1) by (simp add: StoreInt32_valid idxForP_valid)
  have "n = nat (maxPid r + 1 - (i + 1))"
    using Suc.hyps(2) by simp
  then have ih: "clear_loop r (i + 1) ?h = Inr (clear_heap r (i + 1) ?h)"
    using Suc.prems by (intro Suc.hyps(1)) simp_all
  have sh: "clear_heap r (i + 1) ?h = clear_heap r i h"
    using Suc.prems le by (rule clear_heap_step)
  have "clear_loop r i h = clear_loop r (i + 1) ?h"
    using le st by (subst clear_loop.simps) simp
  then show ?case
    by (simp only: ih sh)
qed

lemma clear_unfold:
  assumes "wf_refCount r h"
  shows "clear r h = Inr (clear_heap r 0 h)"
proof -
  have "0 \<le> maxPid r" by (simp add: maxPid_eq)
  then have "clear_heap r (0 + 1) (slot_set (counters r) (idxForP r 0) 0 h) = clear_heap r 0 h"
    using assms by (intro clear_heap_step) simp_all
  then show ?thesis
    using assms by (simp add: clear_def StoreInt32_valid idxForP_valid clear_loop_spec)
qed

subsection \<open>Frames\<close>

lemma idxForP_mod:
  assumes "0 \<le> offset r" "offset r < 16"
  shows "idxForP r p mod 16 = offset r"
  using assms by (simp add: idxForP_eq)

lemma idxForP_other_offset:
  assumes "wf_refCount r h" "wf_refCount r' h" "offset r' \<noteq> offset r"
  shows "idxForP r' q \<noteq> idxForP r p"
  using idxForP_mod [of r p] idxForP_mod [of r' q] wf_offset [OF assms(1)] wf_offset [OF assms(2)]
    assms(3)
  by auto

lemma idxForP_other_notin:
  assumes "wf_refCount r h" "wf_refCount r' h" "offset r' \<noteq> offset r"
  shows "idxForP r' q \<notin> idxForP r ` S"
  using idxForP_other_offset [OF assms] by auto

lemma slot_chans_update [simp]: "slot (h\<lparr>chans := c\<rparr>) a k = slot h a k"
  by (simp add: slot_def)

lemma chan_send_slot: "chan_send ch h = Inr h' \<Longrightarrow> slot h' a k = slot h a k"
  by (auto simp add: chan_send_def split: option.splits if_splits)

lemma chan_recv_slot: "chan_recv ch h = Inr h' \<Longrightarrow> slot h' a k = slot h a k"
  by (auto simp add: chan_recv_def split: option.splits if_splits)

lemma slot_set_frame:
  assumes "wf_refCount r h" "wf_refCount r' h" "offset r' \<noteq> offset r"
  shows "slot (slot_set (counters r) (idxForP r p) v g) a (idxForP r' q) = slot g a (idxForP r' q)"
proof -
  have "0 \<le> idxForP r p" "0 \<le> idxForP r' q"
    using idxForP_bounds(1) wf_offset [OF assms(1)] wf_offset [OF assms(2)] by simp_all
  moreover have "idxForP r' q \<noteq> idxForP r p"
    using assms by (rule idxForP_other_offset)
  ultimately have "nat (idxForP r' q) \<noteq> nat (idxForP r p)"
    by simp
  then show ?thesis
    by (simp add: slot_slot_set_other)
qed

lemma acquire_frame:
  assumes "wf_refCount r h" "wf_refCount r' h" "offset r' \<noteq> offset r"
    and "acquire r h = Inr (t, h1)"
  shows "slot h1 a (idxForP r' q) = slot h a (idxForP r' q)"
proof -
  have "valid_slot h (counters r) (idxForP r (getp + 1))"
    using assms(1) by (rule idxForP_valid)
  then have "h1 = slot_set (counters r) (idxForP r (getp + 1))
      (slot h (counters r) (idxForP r (getp + 1)) + 1) h"
    using assms(4) by (auto simp add: acquire_spec split: if_splits)
  then show ?thesis
    using slot_set_frame [OF assms(1-3)] by simp
qed

lemma release_frame:
  assumes "wf_refCount r h" "wf_refCount r' h" "offset r' \<noteq> offset r"
    and "release r (idxForP r p) h = Inr h2"
  shows "slot h2 a (idxForP r' q) = slot h a (idxForP r' q)"
proof -
  have v: "valid_slot h (counters r) (idxForP r p)" "valid_slot h (counters r) (idxForP r 0)"
    using assms(1) by (simp_all add: idxForP_valid)
  show ?thesis
    using assms(4) slot_set_frame [OF assms(1-3)]
    by (auto simp add: release_unfold [OF v] Let_def split: if_splits
        dest!: chan_send_slot [where a = a and k = "idxForP r' q"])
qed

lemma wait_frame:
  assumes "wf_refCount r h" "wf_refCount r' h" "counters r' = counters r"
    "offset r' \<noteq> offset r"
    and "wait r h = Inr h3"
  shows "slot h3 (counters r') (idxForP r' q) = slot h (counters r') (idxForP r' q)"
proof -
  have v: "valid_slot h (counters r) (idxForP r' q)"
    using idxForP_valid [OF assms(2)] assms(3) by simp
  have s: "slot (scan_heap r 1 h) (counters r) (idxForP r' q) = slot h (counters r) (idxForP r' q)"
    using idxForP_other_notin [OF assms(1,2,4)] by (simp add: slot_scan_heap [OF v])
  show ?thesis
    using assms(5) s slot_set_frame [OF assms(1,2,4)]
    by (auto simp add: wait_unfold [OF assms(1)] assms(3) Let_def split: if_splits
        dest!: chan_recv_slot [where a = "counters r" and k = "idxForP r' q"])
qed

lemma slot_clear_heap:
  assumes "valid_slot h (counters r) k"
  shows "slot (clear_heap r i h) (counters r) k =
     (if k \<in> idxForP r ` {i..maxPid r} then 0 else slot h (counters r) k)"
  using assms by (simp add: valid_slot_def clear_heap_def slot_def)

lemma clear_frame:
  assumes "wf_refCount r h" "wf_refCount r' h" "counters r' = counters r"
    "offset r' \<noteq> offset r"
    and "clear r h = Inr h4"
  shows "slot h4 (counters r') (idxForP r' q) = slot h (counters r') (idxForP r' q)"
proof -
  have v: "valid_slot h (counters r) (idxForP r' q)"
    using idxForP_valid [OF assms(2)] assms(3) by simp
  show ?thesis
    using assms(5) idxForP_other_notin [OF assms(1,2,4)]
    by (auto simp add: clear_unfold [OF assms(1)] assms(3) slot_clear_heap [OF v])
qed

lemma example_wf: "wf_refCount example_rc example_heap" "wf_refCount neighbour_rc example_heap"
  "wf_refCount example_rc busy_heap"
  by (simp_all add: wf_refCount_def example_rc_def neighbour_rc_def example_heap_def busy_heap_def
      slotsPerCacheLineBits_def)

lemma armed_example: "armed example_rc 1 example_heap = {}"
proof -
  have "slot example_heap 0 (idxForP example_rc j) = 0" for j
    using example_idx_bounds [of j] by (simp add: example_slot)
  then show ?thesis
    by (simp add: armed_def)
qed

lemma armed_busy: "armed example_rc 1 busy_heap = {1}"
proof -
  have "slot busy_heap 0 (idxForP example_rc 1) = 2"
    by (simp add: example_idx slot_def busy_heap_def)
  then show ?thesis
    by (auto simp add: armed_def maxPid_eq word_sle_eq)
qed

lemma example_acquire: "acquire example_rc example_heap = Inr (19, slot_set 0 19 1 example_heap)"
  using acquire_spec [of example_heap example_rc]
  by (simp add: getp_def example_idx example_valid example_slot MaxInt32_def)

lemma example_release:
  "release example_rc (idxForP example_rc 1) example_heap =
     Inr (slot_set 0 3 (- 1) (slot_set 0 19 (- 1) example_heap))"
  using release_unfold [of example_heap example_rc 19]
  by (simp add: example_idx example_slot example_valid slot_slot_set_other Let_def)

lemma example_wait: "wait example_rc example_heap = Inr (scan_heap example_rc 1 example_heap)"
  by (simp add: wait_unfold [OF example_wf(1)] armed_example)

lemma example_clear: "clear example_rc example_heap = Inr (clear_heap example_rc 0 example_heap)"
  by (rule clear_unfold [OF example_wf(1)])

subsection \<open>Well-formedness is kept\<close>

lemma heap_extends_refl [simp]: "heap_extends h h"
  by (simp add: heap_extends_def)

lemma heap_extends_trans: "heap_extends h h' \<Longrightarrow> heap_extends h' h'' \<Longrightarrow> heap_extends h h''"
  by (auto simp add: heap_extends_def)

lemma wf_refCount_ext: "wf_refCount r h \<Longrightarrow> heap_extends h h' \<Longrightarrow> wf_refCount r h'"
  by (auto simp add: wf_refCount_def heap_extends_def)

lemma length_nth_list_update:
  "length ys = length (xs ! a) \<Longrightarrow> length (xs[a := ys] ! b) = length (xs ! b)"
  by (cases "a = b"; cases "a < length xs") (simp_all add: list_update_beyond)

lemma heap_extends_slot_set [simp]: "heap_extends h (slot_set a i v h)"
  by (simp add: heap_extends_def slot_set_def length_nth_list_update)

lemma heap_extends_scan_heap [simp]: "heap_extends h (scan_heap r i h)"
  by (simp add: heap_extends_def scan_heap_def length_nth_list_update)

lemma heap_extends_clear_heap [simp]: "heap_extends h (clear_heap r i h)"
  by (simp add: heap_extends_def clear_heap_def length_nth_list_update)

lemma heap_extends_chans [simp]: "heap_extends h (h\<lparr>chans := c\<rparr>)"
  by (simp add: heap_extends_def)

lemma heap_extends_pool [simp]: "heap_extends h (h\<lparr>pool := p\<rparr>)"
  by (simp add: heap_extends_def)

lemma pool_slot_set_chans [simp]:
  "pool (clear_heap r i h) = pool h"
  by (simp_all add: clear_heap_def)

lemma chan_recv_ext: "chan_recv ch h = Inr h' \<Longrightarrow> heap_extends h h' \<and> pool h' = pool h"
  by (auto simp add: chan_recv_def split: option.splits if_splits)

lemma chan_recv_outcome: "chan_recv ch h = Inl e \<Longrightarrow> e = Blocked"
  by (auto simp add: chan_recv_def split: option.splits if_splits)

lemma wait_outcome:
  assumes "wf_refCount r h"
  shows "wait r h = Inl Blocked \<or> (\<exists>h'. wait r h = Inr h' \<and> heap_extends h h' \<and> pool h' = pool h)"
proof -
  let ?h2 = "slot_set (counters r) (idxForP r 0)
      (slot h (counters r) (idxForP r 0) + of_nat (card (armed r 1 h))) (scan_heap r 1 h)"
  have e2: "heap_extends h ?h2"
    by (rule heap_extends_trans [of _ "scan_heap r 1 h"]) simp_all
  have "chan_recv (waitch r) ?h2 = Inl Blocked \<or>
    (\<exists>h'. chan_recv (waitch r) ?h2 = Inr h' \<and> heap_extends h h' \<and> pool h' = pool h)"
  proof (cases "chan_recv (waitch r) ?h2")
    case (Inl e)
    then show ?thesis using chan_recv_outcome by blast
  next
    case (Inr h')
    then show ?thesis
      using chan_recv_ext [OF Inr] e2 heap_extends_trans by auto
  qed
  then show ?thesis
    using e2 by (auto simp add: wait_unfold [OF assms] Let_def)
qed

lemma wf_heap_extends: "wf_heap h \<Longrightarrow> heap_extends h h' \<Longrightarrow> pool h' = pool h \<Longrightarrow> wf_heap h'"
  by (auto simp add: wf_heap_def intro: wf_refCount_ext)

lemma wf_slot_ext: "wf_slot l h i \<Longrightarrow> heap_extends h h' \<Longrightarrow> wf_slot l h' i"
  by (auto simp add: wf_slot_def intro: wf_refCount_ext split: option.splits)

lemma wf_refCount_waitch [simp]: "wf_refCount (r\<lparr>waitch := c\<rparr>) h = wf_refCount r h"
  by (simp add: wf_refCount_def)

lemma wf_refCount_chans [simp]: "wf_refCount r (h\<lparr>chans := c\<rparr>) = wf_refCount r h"
  by (simp add: wf_refCount_def)

lemma wf_refCount_pool [simp]: "wf_refCount r (h\<lparr>pool := p\<rparr>) = wf_refCount r h"
  by (simp add: wf_refCount_def)

lemma heap_extends_append [simp]: "heap_extends h (h\<lparr>arrays := arrays h @ xs\<rparr>)"
  by (simp add: heap_extends_def nth_append)

lemma allocate_new_wf:
  assumes "wf_heap h" and "pb < 31"
  shows "\<exists>r' h'. allocate_new pb h = Inr (r', h') \<and> wf_refCount r' h' \<and> heap_extends h h' \<and>
           wf_heap h' \<and> pbits r' = pb"
proof -
  let ?n = "push_bit slotsPerCacheLineBits (push_bit pb (1::int))"
  let ?h1 = "h\<lparr>arrays := arrays h @ [replicate (nat ?n) 0]\<rparr>"
  let ?new = "\<lparr>pbits = pb, counters = length (arrays h), offset = 0, waitch = None\<rparr>"
  have n: "0 \<le> ?n" "?n = 2 ^ pb * 2 ^ slotsPerCacheLineBits"
    by (simp_all add: push_bit_eq_mult)
  have w: "wf_refCount ?new ?h1" "wf_refCount (?new\<lparr>offset := 1\<rparr>) ?h1"
    using assms(2) n by (simp_all add: wf_refCount_def slotsPerCacheLineBits_def)
  have old: "wf_refCount r ?h1" if "r \<in> set (pool h)" for r
    using assms(1) that by (auto simp add: wf_heap_def intro: wf_refCount_ext)
  have e: "allocate_new pb h =
      Inr (?new\<lparr>waitch := Some (length (chans h))\<rparr>,
           ?h1\<lparr>pool := ?new\<lparr>offset := 1\<rparr> # pool h, chans := chans h @ [0]\<rparr>)"
    using n(1) by (simp add: allocate_new_def make_counters_def pool_Put_def make_chan_def Let_def)
  have "wf_heap (?h1\<lparr>pool := ?new\<lparr>offset := 1\<rparr> # pool h, chans := chans h @ [0]\<rparr>)"
    using w(2) old by (auto simp add: wf_heap_def wf_refCount_def)
  moreover have "heap_extends h (?h1\<lparr>pool := ?new\<lparr>offset := 1\<rparr> # pool h, chans := chans h @ [0]\<rparr>)"
    by (simp add: heap_extends_def nth_append)
  moreover have "wf_refCount (?new\<lparr>waitch := Some (length (chans h))\<rparr>)
      (?h1\<lparr>pool := ?new\<lparr>offset := 1\<rparr> # pool h, chans := chans h @ [0]\<rparr>)"
    using w(1) by (simp add: wf_refCount_def)
  ultimately show ?thesis
    using e by simp
qed

lemma wf_heap_pool_tl: "wf_heap h \<Longrightarrow> pool h = p # ps \<Longrightarrow> wf_heap (h\<lparr>pool := ps\<rparr>)"
  by (simp add: wf_heap_def)

lemma allocate_pooled_wf:
  assumes "wf_heap h" and "pb < 31"
  shows "\<exists>r' h'. allocate_pooled pb h = Inr (r', h') \<and> wf_refCount r' h' \<and> heap_extends h h' \<and>
           wf_heap h' \<and> pbits r' = pb"
proof (cases "pool h")
  case Nil
  then have "allocate_pooled pb h = allocate_new pb h"
    by (simp add: allocate_pooled_def pool_Get_def)
  then show ?thesis
    using allocate_new_wf [OF assms] by simp
next
  case (Cons p ps)
  let ?h1 = "h\<lparr>pool := ps\<rparr>"
  have wp: "wf_refCount p h" and wps: "\<forall>r \<in> set ps. wf_refCount r h"
    using assms(1) Cons by (simp_all add: wf_heap_def)
  show ?thesis
  proof (cases "pbits p = pb")
    case False
    then have "allocate_pooled pb h = allocate_new pb ?h1"
      using Cons by (simp add: allocate_pooled_def pool_Get_def)
    moreover have "wf_heap ?h1"
      using assms(1) Cons by (rule wf_heap_pool_tl)
    ultimately show ?thesis
      using allocate_new_wf [of ?h1 pb] assms(2) by (auto simp add: heap_extends_def)
  next
    case True
    let ?ps = "if offset p < push_bit slotsPerCacheLineBits 1 - 1
               then p\<lparr>offset := offset p + 1\<rparr> # ps else ps"
    let ?h3 = "h\<lparr>pool := ?ps, chans := chans h @ [0]\<rparr>"
    have e: "allocate_pooled pb h = Inr (p\<lparr>waitch := Some (length (chans h))\<rparr>, ?h3)"
      using Cons True
      by (simp add: allocate_pooled_def pool_Get_def pool_Put_def make_chan_def Let_def)
    have "wf_refCount (p\<lparr>offset := offset p + 1\<rparr>) h"
      if "offset p < push_bit slotsPerCacheLineBits 1 - 1"
      using wp that by (simp add: wf_refCount_def slotsPerCacheLineBits_def)
    then have "wf_heap ?h3"
      using wps by (auto simp add: wf_heap_def wf_refCount_def)
    moreover have "heap_extends h ?h3"
      by (simp add: heap_extends_def)
    moreover have "wf_refCount (p\<lparr>waitch := Some (length (chans h))\<rparr>) ?h3"
      using wp by (simp add: wf_refCount_def)
    ultimately show ?thesis
      using e True by simp
  qed
qed

lemma clear_wf:
  assumes "wf_refCount r h"
  shows "\<exists>h'. clear r h = Inr h' \<and> heap_extends h h' \<and> pool h' = pool h"
  using assms by (simp add: clear_unfold)

lemma allocateRefCount_wf:
  assumes "wf_heap h" and "\<And>r. reuse = Some r \<Longrightarrow> wf_refCount r h"
  shows "\<exists>r' h'. allocateRefCount reuse h = Inr (r', h') \<and> wf_refCount r' h' \<and>
           heap_extends h h' \<and> wf_heap h'"
proof -
  have pooled: "\<exists>r' h'. allocate_pooled 8 h = Inr (r', h') \<and> wf_refCount r' h' \<and>
           heap_extends h h' \<and> wf_heap h'"
    using allocate_pooled_wf [OF assms(1), of 8] by auto
  show ?thesis
  proof (cases reuse)
    case None
    then show ?thesis
      using pooled by (simp add: allocateRefCount_def pbits_computed)
  next
    case (Some r)
    show ?thesis
    proof (cases "pbits r = 8")
      case False
      then show ?thesis
        using pooled Some by (simp add: allocateRefCount_def pbits_computed)
    next
      case True
      have w: "wf_refCount r h" using assms(2) Some by simp
      obtain h' where h': "clear r h = Inr h'" "heap_extends h h'" "pool h' = pool h"
        using clear_wf [OF w] by blast
      have "allocateRefCount reuse h = Inr (r, h')"
        using Some True h'(1) by (simp add: allocateRefCount_def pbits_computed)
      moreover have "wf_refCount r h'" using w h'(2) by (rule wf_refCount_ext)
      moreover have "wf_heap h'" using assms(1) h'(2,3) by (rule wf_heap_extends)
      ultimately show ?thesis using h'(2) by simp
    qed
  qed
qed

subsection \<open>The state word and the steps of Next\<close>

lemma state_cases: "(st::int32) \<le> 3 \<Longrightarrow> st = 0 \<or> st = 1 \<or> st = 2 \<or> st = 3"
proof -
  assume "st \<le> 3"
  then have "unat st \<le> 3" by (simp add: word_le_nat_alt)
  then consider "unat st = 0" | "unat st = 1" | "unat st = 2" | "unat st = 3" by linarith
  then show ?thesis
  proof cases
    case 1 then show ?thesis by (simp add: unat_eq_0)
  next
    case 2
    then have "of_nat (unat st) = (of_nat 1 :: int32)" by simp
    then show ?thesis by simp
  next
    case 3
    then have "of_nat (unat st) = (of_nat 2 :: int32)" by simp
    then show ?thesis by simp
  next
    case 4
    then have "of_nat (unat st) = (of_nat 3 :: int32)" by simp
    then show ?thesis by simp
  qed
qed

lemma rem32_simps [simp]: "rem32 1 2 = 1" "rem32 2 2 = 0"
  by (simp_all add: rem32_def signed_modulo_int_def)

lemma toggle_leftRight:
  "st \<le> 3 \<Longrightarrow> push_bit 1 (rem32 (signed_drop_bit 1 st + 1) 2) OR (st AND 1) = st XOR 2"
  by (drule state_cases) auto

lemma toggle_versionIndex:
  "st \<le> 3 \<Longrightarrow> (st AND 2) OR rem32 ((st AND 1) + 1) 2 = st XOR 1"
  by (drule state_cases) auto

lemma xor_le_3: "(st::int32) \<le> 3 \<Longrightarrow> st XOR 2 \<le> 3 \<and> st XOR 1 \<le> 3"
  by (drule state_cases) auto

lemma nv_index:
  "sint (rem32 ((st AND 1) + 1) 2) = (if st AND 1 = 0 then 1 else 0)"
  using and_1_cases [of st] by auto

lemma wf_slot_update_same:
  "i < length (refCounts l) \<Longrightarrow>
   wf_slot (l\<lparr>refCounts := (refCounts l)[i := Some r]\<rparr>) h i = wf_refCount r h"
  by (simp add: wf_slot_def)

lemma wf_slot_update_other:
  "j \<noteq> i \<Longrightarrow> wf_slot (l\<lparr>refCounts := (refCounts l)[i := x]\<rparr>) h j = wf_slot l h j"
  by (simp add: wf_slot_def)

lemma wf_slot_state [simp]: "wf_slot (l\<lparr>state := s\<rparr>) h i = wf_slot l h i"
  by (simp add: wf_slot_def)

lemma wf_slot_wmu [simp]: "wf_slot (l\<lparr>wmu := s\<rparr>) h i = wf_slot l h i"
  by (simp add: wf_slot_def)

lemma wf_slot_once [simp]: "wf_slot (l\<lparr>once := s\<rparr>) h i = wf_slot l h i"
  by (simp add: wf_slot_def)

lemma waitForNonVersionIndex_wf:
  assumes "wf_heap h" and "wf_LRMutex l h" and "once l"
  shows "waitForNonVersionIndex st l h = Inl Blocked \<or>
     (\<exists>l' h'. waitForNonVersionIndex st l h = Inr (l', h') \<and> wf_heap h' \<and> wf_LRMutex l' h' \<and>
        once l' \<and> state l' = state l \<and> wmu l' = wmu l)"
proof -
  define i where "i = nat (sint (rem32 ((st AND 1) + 1) 2))"
  define j where "j = 1 - i"
  have i: "0 \<le> sint (rem32 ((st AND 1) + 1) 2)" "i < 2" "j < 2" "j \<noteq> i" "i = 0 \<or> i = 1"
    by (auto simp add: i_def j_def nv_index)
  have len: "length (refCounts l) = 2" and st: "state l \<le> 3"
    and wfi: "wf_slot l h i" and wfj: "wf_slot l h j"
    using assms(2,3) i(5) by (auto simp add: wf_LRMutex_def j_def)
  then obtain r where r: "refCounts l ! i = Some r" "wf_refCount r h"
    by (auto simp add: wf_slot_def split: option.splits)
  show ?thesis
  proof (cases "wait r h")
    case (Inl e)
    then have "e = Blocked" using wait_outcome [OF r(2)] by auto
    then show ?thesis
      using Inl i(1,2) len r(1) by (simp add: waitForNonVersionIndex_def Let_def flip: i_def)
  next
    case (Inr h1)
    then have h1: "heap_extends h h1" "pool h1 = pool h"
      using wait_outcome [OF r(2)] by auto
    have w1: "wf_heap h1" using assms(1) h1 by (rule wf_heap_extends)
    have r1: "wf_refCount r h1" using r(2) h1(1) by (rule wf_refCount_ext)
    obtain r' h2 where a: "allocateRefCount (Some r) h1 = Inr (r', h2)" "wf_refCount r' h2"
      "heap_extends h1 h2" "wf_heap h2"
      using allocateRefCount_wf [OF w1, of "Some r"] r1 by auto
    let ?l = "l\<lparr>refCounts := (refCounts l)[i := Some r']\<rparr>"
    have e: "waitForNonVersionIndex st l h = Inr (?l, h2)"
      using Inr a(1) i(1,2) len r(1) by (simp add: waitForNonVersionIndex_def Let_def flip: i_def)
    have "wf_slot ?l h2 i"
      using a(2) i(2) len by (simp add: wf_slot_update_same)
    moreover have "wf_slot ?l h2 j"
      using wfj i(4) heap_extends_trans [OF h1(1) a(3)] by (simp add: wf_slot_update_other wf_slot_ext)
    ultimately have "wf_slot ?l h2 0 \<and> wf_slot ?l h2 1"
      using i(5) by (auto simp add: j_def)
    then have "wf_LRMutex ?l h2"
      using len st by (simp add: wf_LRMutex_def)
    then show ?thesis
      using e a(4) assms(3) by simp
  qed
qed

lemma wf_LRMutex_state: "wf_LRMutex l h \<Longrightarrow> s \<le> 3 \<Longrightarrow> wf_LRMutex (l\<lparr>state := s\<rparr>) h"
  by (simp add: wf_LRMutex_def)

lemma byte_facts:
  "\<not> (3::byte) \<le> 1" "\<not> (3::byte) \<le> 0" "\<not> (3::byte) \<le> 2" "(3::byte) \<le> 3"
  "(2::byte) < 3" "\<not> (3::byte) < 3" "\<not> (2::byte) < 1" "\<not> (2::byte) < 2" "(2::byte) < 3"
  by (simp_all add: word_le_nat_alt word_less_nat_alt)

lemma Next_second:
  assumes "wf_heap h" and "wf_LRMutex l h" and "once l" and "nonzero w" and "incrs w = 1"
  shows "Next w l h = Inl Blocked \<or>
     (\<exists>l' h'. Next w l h = Inr (True, w\<lparr>incrs := 2\<rparr>, l', h') \<and> wf_heap h' \<and>
        wf_LRMutex l' h' \<and> once l' \<and> wmu l' = wmu l \<and> state l' = state l XOR 3)"
proof -
  have st: "state l \<le> 3"
    using assms(2,3) by (simp add: wf_LRMutex_def)
  let ?s1 = "state l XOR 2"
  let ?l1 = "l\<lparr>state := ?s1\<rparr>"
  have s1: "?s1 \<le> 3" using st xor_le_3 by blast
  have unfold: "Next w l h =
     (case waitForNonVersionIndex ?s1 ?l1 h of
        Inl e \<Rightarrow> Inl e
      | Inr (l2, h2) \<Rightarrow>
          (case waitForNonVersionIndex (?s1 XOR 1) (l2\<lparr>state := ?s1 XOR 1\<rparr>) h2 of
             Inl e \<Rightarrow> Inl e
           | Inr (l4, h4) \<Rightarrow> Inr (True, w\<lparr>incrs := 2\<rparr>, l4, h4)))"
    unfolding Next_def Let_def toggle_leftRight [OF st] toggle_versionIndex [OF s1]
    using assms(4,5) by (auto simp add: byte_facts split: sum.splits)
  have w1: "wf_LRMutex ?l1 h"
    using assms(2) s1 by (rule wf_LRMutex_state)
  have o1: "once ?l1" using assms(3) by simp
  from waitForNonVersionIndex_wf [OF assms(1) w1 o1, of ?s1]
  show ?thesis
  proof
    assume "waitForNonVersionIndex ?s1 ?l1 h = Inl Blocked"
    then show ?thesis by (simp add: unfold)
  next
    assume "\<exists>l' h'. waitForNonVersionIndex ?s1 ?l1 h = Inr (l', h') \<and> wf_heap h' \<and>
        wf_LRMutex l' h' \<and> once l' \<and> state l' = state ?l1 \<and> wmu l' = wmu ?l1"
    then obtain l2 h2 where a: "waitForNonVersionIndex ?s1 ?l1 h = Inr (l2, h2)" "wf_heap h2"
      "wf_LRMutex l2 h2" "once l2" "wmu l2 = wmu l"
      by auto
    let ?s2 = "?s1 XOR 1"
    let ?l3 = "l2\<lparr>state := ?s2\<rparr>"
    have s2: "?s2 \<le> 3" using s1 xor_le_3 by blast
    have w3: "wf_LRMutex ?l3 h2"
      using a(3) s2 by (rule wf_LRMutex_state)
    have o3: "once ?l3" using a(4) by simp
    have x: "?s2 = state l XOR 3"
      by (simp add: xor.assoc)
    from waitForNonVersionIndex_wf [OF a(2) w3 o3, of ?s2]
    show ?thesis
    proof
      assume "waitForNonVersionIndex ?s2 ?l3 h2 = Inl Blocked"
      then show ?thesis by (simp add: unfold a(1))
    next
      assume "\<exists>l' h'. waitForNonVersionIndex ?s2 ?l3 h2 = Inr (l', h') \<and> wf_heap h' \<and>
        wf_LRMutex l' h' \<and> once l' \<and> state l' = state ?l3 \<and> wmu l' = wmu ?l3"
      then obtain l4 h4 where b: "waitForNonVersionIndex ?s2 ?l3 h2 = Inr (l4, h4)" "wf_heap h4"
        "wf_LRMutex l4 h4" "once l4" "state l4 = ?s2" "wmu l4 = wmu l2"
        by auto
      have "Next w l h = Inr (True, w\<lparr>incrs := 2\<rparr>, l4, h4)"
        by (simp add: unfold a(1) b(1))
      then show ?thesis
        using b a(5) x by simp
    qed
  qed
qed

lemma init_wf:
  assumes "wf_heap h" and "length (refCounts l) = 2"
  shows "\<exists>l' h'. init l h = Inr (l', h') \<and> wf_heap h' \<and> length (refCounts l') = 2 \<and>
     state l' = 0 \<and> wf_slot l' h' 0 \<and> wf_slot l' h' 1 \<and> wmu l' = wmu l"
proof -
  obtain r0 h0 where a: "allocateRefCount None h = Inr (r0, h0)" "wf_refCount r0 h0" "wf_heap h0"
    using allocateRefCount_wf [OF assms(1), of None] by auto
  obtain r1 h1 where b: "allocateRefCount None h0 = Inr (r1, h1)" "wf_refCount r1 h1"
    "heap_extends h0 h1" "wf_heap h1"
    using allocateRefCount_wf [OF a(3), of None] by auto
  let ?l = "l\<lparr>state := 0, refCounts := (refCounts l)[0 := Some r0, 1 := Some r1]\<rparr>"
  have e: "init l h = Inr (?l, h1)"
    by (simp add: init_def a(1) b(1) Let_def)
  have "wf_refCount r0 h1" using a(2) b(3) by (rule wf_refCount_ext)
  then have "wf_slot ?l h1 0" "wf_slot ?l h1 1"
    using b(2) assms(2) by (simp_all add: wf_slot_def nth_list_update)
  then show ?thesis
    using e b(4) assms(2) by simp
qed

lemma once_Do_init_wf:
  assumes "wf_heap h" and "wf_LRMutex l h"
  shows "\<exists>l' h'. once_Do_init l h = Inr (l', h') \<and> wf_heap h' \<and> wf_LRMutex l' h' \<and> once l' \<and>
     wmu l' = wmu l \<and> state l' = (if once l then state l else 0)"
proof (cases "once l")
  case True
  then show ?thesis
    using assms by (simp add: once_Do_init_def)
next
  case False
  have len: "length (refCounts l) = 2"
    using assms(2) by (simp add: wf_LRMutex_def)
  obtain l' h' where a: "init l h = Inr (l', h')" "wf_heap h'" "length (refCounts l') = 2"
      "state l' = 0" "wf_slot l' h' 0" "wf_slot l' h' 1" "wmu l' = wmu l"
    using init_wf [OF assms(1) len] by blast
  have "once_Do_init l h = Inr (l'\<lparr>once := True\<rparr>, h')"
    using False a(1) by (simp add: once_Do_init_def)
  moreover have "wf_LRMutex (l'\<lparr>once := True\<rparr>) h'"
    using a by (simp add: wf_LRMutex_def)
  ultimately show ?thesis
    using False a by simp
qed

lemma Lock_wf:
  assumes "wf_heap h" and "wf_LRMutex l h" and "Lock l h = Inr (w, l', h')"
  shows "wf_heap h' \<and> wf_LRMutex l' h' \<and> once l' \<and> wmu l' \<and>
     state l' = (if once l then state l else 0) \<and>
     w = \<lparr>nonzero = True, startIdx = ucast (rem32 (signed_drop_bit 1 (state l') + 1) 2), incrs = 0\<rparr>"
proof -
  obtain l1 h1 where a: "once_Do_init l h = Inr (l1, h1)" "wf_heap h1" "wf_LRMutex l1 h1" "once l1"
     "state l1 = (if once l then state l else 0)"
    using once_Do_init_wf [OF assms(1,2)] by blast
  have "wf_LRMutex (l1\<lparr>wmu := True\<rparr>) h1"
    using a(3) by (simp add: wf_LRMutex_def)
  then show ?thesis
    using assms(3) a by (auto simp add: Lock_def Let_def split: if_splits)
qed

lemma startIdx_opposite:
  "st \<le> 3 \<Longrightarrow>
   (ucast (rem32 (signed_drop_bit 1 st + 1) 2) :: byte) = (if bit st 1 then 0 else 1)"
  by (drule state_cases) (auto simp add: bit_numeral_simps)

lemma Idx_values:
  assumes "nonzero w" and "startIdx w = 0 \<or> startIdx w = 1"
  shows "LockToken_Idx (w\<lparr>incrs := 0\<rparr>) = Inl (Panic ''Cannot call Idx() before calling Next().'')"
    and "LockToken_Idx (w\<lparr>incrs := 1\<rparr>) = Inr (uint (startIdx w))"
    and "LockToken_Idx (w\<lparr>incrs := 2\<rparr>) = Inr (1 - uint (startIdx w))"
    and "LockToken_Idx (w\<lparr>incrs := 3\<rparr>) =
           Inl (Panic ''Cannot call Idx() again after Next() has returned false.'')"
  using assms
  by (auto simp add: LockToken_Idx_def signed_modulo_int_def word_less_nat_alt)

lemma Next_first:
  assumes "nonzero w" and "incrs w = 0"
  shows "Next w l h = Inr (True, w\<lparr>incrs := 1\<rparr>, l, h)"
  using assms by (simp add: Next_def word_le_nat_alt)

lemma Next_third:
  assumes "nonzero w" and "incrs w = 2" and "wmu l"
  shows "Next w l h = Inr (False, w\<lparr>incrs := 3\<rparr>, l\<lparr>wmu := False\<rparr>, h)"
  using assms by (simp add: Next_def word_le_nat_alt)

lemma Next_fourth:
  assumes "nonzero w" and "incrs w = 3"
  shows "Next w l h = Inl (Panic ''Cannot call Next() again after it has returned false.'')"
  using assms by (simp add: Next_def)

lemma Next_zero: "Next zero_LockToken l h = Inl (Panic ''Use of a zero LockToken is invalid.'')"
  by (simp add: Next_def zero_LockToken_def)

subsection \<open>The first write on a fresh mutex\<close>

lemma fresh_rc1_fields [simp]:
  "counters fresh_rc1 = 0" "waitch fresh_rc1 = Some 1" "pbits fresh_rc1 = 8" "offset fresh_rc1 = 1"
  by (simp_all add: fresh_rc1_def)

lemma fresh_wf: "wf_refCount fresh_rc0 fresh_heap" "wf_refCount fresh_rc1 fresh_heap"
  by (simp_all add: wf_refCount_def fresh_heap_def slotsPerCacheLineBits_def)

lemma wf_heap_examples: "wf_heap empty_heap" "wf_heap fresh_heap"
  by (simp_all add: wf_heap_def empty_heap_def fresh_heap_def wf_refCount_def
      slotsPerCacheLineBits_def)

lemma wf_LRMutex_zero: "wf_LRMutex zero_LRMutex h"
  by (simp add: wf_LRMutex_def zero_LRMutex_def)

lemma Lock_zero: "Lock zero_LRMutex empty_heap = Inr (first_LockToken, locked_mutex, fresh_heap)"
  by (simp add: Lock_def once_Do_init_zero fresh_mutex_def locked_mutex_def first_LockToken_def
      Let_def)

lemma wait_quiet:
  assumes "wf_refCount r h" and "\<And>j. slot h (counters r) (idxForP r j) = 0"
  shows "wait r h = Inr (scan_heap r 1 h)"
proof -
  have "armed r 1 h = {}"
    by (simp add: armed_def assms(2) word_sle_eq)
  then show ?thesis
    by (simp add: wait_unfold [OF assms(1)])
qed

lemma fresh_slots: "slot fresh_heap 0 (idxForP fresh_rc0 j) = 0" "slot fresh_heap 0 (idxForP fresh_rc1 j) = 0"
  using idxForP_bounds [of fresh_rc0 j] idxForP_bounds [of fresh_rc1 j]
  by (simp_all add: fresh_slot)

lemma fresh_wait1: "wait fresh_rc1 fresh_heap = Inr (scan_heap fresh_rc1 1 fresh_heap)"
  using fresh_wf(2) by (rule wait_quiet) (simp add: fresh_slots)

lemma fresh_clear1:
  "clear fresh_rc1 (scan_heap fresh_rc1 1 fresh_heap) = Inr after_first_drain"
  unfolding after_first_drain_def
  by (rule clear_unfold) (rule wf_refCount_ext [OF fresh_wf(2)], simp)

lemma after_first_drain_wf:
  "wf_refCount fresh_rc0 after_first_drain" "wf_refCount fresh_rc1 after_first_drain"
  unfolding after_first_drain_def
  by (rule wf_refCount_ext [OF fresh_wf(1)], rule heap_extends_trans [of _ "scan_heap fresh_rc1 1 fresh_heap"], simp_all)
     (rule wf_refCount_ext [OF fresh_wf(2)], rule heap_extends_trans [of _ "scan_heap fresh_rc1 1 fresh_heap"], simp_all)

lemma after_first_drain_slots: "slot after_first_drain 0 (idxForP fresh_rc0 j) = 0"
proof -
  have w: "wf_refCount fresh_rc1 (scan_heap fresh_rc1 1 fresh_heap)"
      "wf_refCount fresh_rc0 (scan_heap fresh_rc1 1 fresh_heap)"
    by (rule wf_refCount_ext [OF fresh_wf(2)], simp) (rule wf_refCount_ext [OF fresh_wf(1)], simp)
  have "slot after_first_drain (counters fresh_rc0) (idxForP fresh_rc0 j)
      = slot (scan_heap fresh_rc1 1 fresh_heap) (counters fresh_rc0) (idxForP fresh_rc0 j)"
    by (rule clear_frame [OF w _ _ fresh_clear1]) simp_all
  also have "\<dots> = slot fresh_heap (counters fresh_rc0) (idxForP fresh_rc0 j)"
    by (rule wait_frame [OF fresh_wf(2,1) _ _ fresh_wait1]) simp_all
  finally show ?thesis
    by (simp add: fresh_slots)
qed

lemma fresh_wait0: "wait fresh_rc0 after_first_drain = Inr (scan_heap fresh_rc0 1 after_first_drain)"
  using after_first_drain_wf(1) by (rule wait_quiet) (simp add: after_first_drain_slots)

lemma fresh_clear0:
  "clear fresh_rc0 (scan_heap fresh_rc0 1 after_first_drain) = Inr after_second_drain"
  unfolding after_second_drain_def
  by (rule clear_unfold) (rule wf_refCount_ext [OF after_first_drain_wf(1)], simp)

lemma Next_second_fresh:
  "Next (first_LockToken\<lparr>incrs := 1\<rparr>) locked_mutex fresh_heap =
     Inr (True, first_LockToken\<lparr>incrs := 2\<rparr>, locked_mutex\<lparr>state := 3\<rparr>, after_second_drain)"
proof -
  have a: "waitForNonVersionIndex 2 (locked_mutex\<lparr>state := 2\<rparr>) fresh_heap
      = Inr (locked_mutex\<lparr>state := 2\<rparr>, after_first_drain)"
    by (simp add: waitForNonVersionIndex_def nv_index locked_mutex_def fresh_wait1
        allocateRefCount_def pbits_computed fresh_clear1)
  have b: "waitForNonVersionIndex 3 (locked_mutex\<lparr>state := 3\<rparr>) after_first_drain
      = Inr (locked_mutex\<lparr>state := 3\<rparr>, after_second_drain)"
    by (simp add: waitForNonVersionIndex_def nv_index locked_mutex_def fresh_wait0
        allocateRefCount_def pbits_computed fresh_clear0)
  have t: "push_bit 1 (rem32 (signed_drop_bit 1 (0::int32) + 1) 2) OR (0 AND 1) = 2"
      "((2::int32) AND 2) OR rem32 ((2 AND 1) + 1) 2 = 3"
    by simp_all
  have s: "state locked_mutex = 0" by (simp add: locked_mutex_def)
  show ?thesis
    unfolding Next_def Let_def s t
    by (simp add: first_LockToken_def byte_facts a b)
qed

subsection \<open>Drains that find no reader\<close>

lemma idxForP_own: "idxForP r p \<in> idxForP r ` {0..maxPid r}"
proof -
  have "idxForP r p = idxForP r (p mod 2 ^ pbits r)"
    by (simp add: idxForP_eq)
  moreover have "p mod 2 ^ pbits r \<in> {0..maxPid r}"
    by (simp add: maxPid_eq)
  ultimately show ?thesis
    by (metis imageI)
qed

lemma heap_extends_drained [simp]: "heap_extends h (drained r h)"
  unfolding drained_def by (rule heap_extends_trans [of _ "scan_heap r 1 h"]) simp_all

lemma drained_own:
  assumes "wf_refCount r h"
  shows "slot (drained r h) (counters r) (idxForP r j) = 0"
proof -
  have "wf_refCount r (scan_heap r 1 h)"
    using assms by (rule wf_refCount_ext) simp
  then have "valid_slot (scan_heap r 1 h) (counters r) (idxForP r j)"
    by (rule idxForP_valid)
  then show ?thesis
    by (simp add: drained_def slot_clear_heap idxForP_own)
qed

lemma slot_clear_heap_other:
  "a \<noteq> counters r \<Longrightarrow> slot (clear_heap r i h) a k = slot h a k"
  by (simp add: clear_heap_def slot_def)

lemma drained_other:
  assumes "wf_refCount r h" "wf_refCount r' h"
    and "counters r' = counters r \<Longrightarrow> offset r' \<noteq> offset r"
  shows "slot (drained r h) (counters r') (idxForP r' j) = slot h (counters r') (idxForP r' j)"
proof (cases "counters r' = counters r")
  case True
  have v: "valid_slot h (counters r) (idxForP r' j)"
    using idxForP_valid [OF assms(2)] True by simp
  have n: "idxForP r' j \<notin> idxForP r ` S" for S
    using assms(1,2) assms(3) [OF True] by (rule idxForP_other_notin)
  show ?thesis
    using v n by (simp add: drained_def True slot_clear_heap slot_scan_heap)
next
  case False
  then show ?thesis
    by (simp add: drained_def slot_clear_heap_other slot_scan_heap_other)
qed

lemma clear_heap_absorb:
  assumes "wf_refCount r h"
  shows "clear_heap r 0 (slot_set (counters r) (idxForP r p) v h) = clear_heap r 0 h"
proof -
  let ?xs = "arrays h ! counters r" and ?n = "nat (idxForP r p)"
  have a: "counters r < length (arrays h)"
    using assms by (simp add: wf_refCount_def)
  have nn: "0 \<le> idxForP r p"
    using idxForP_valid [OF assms, of p] by (simp add: valid_slot_def)
  have m: "map (\<lambda>k. if int k \<in> idxForP r ` {0..maxPid r} then 0 else ?xs[?n := v] ! k)
             [0..<length ?xs]
         = map (\<lambda>k. if int k \<in> idxForP r ` {0..maxPid r} then 0 else ?xs ! k)
             [0..<length ?xs]"
  proof (rule map_cong [OF refl])
    fix k assume "k \<in> set [0..<length ?xs]"
    show "(if int k \<in> idxForP r ` {0..maxPid r} then 0 else ?xs[?n := v] ! k)
        = (if int k \<in> idxForP r ` {0..maxPid r} then 0 else ?xs ! k)"
    proof (cases "k = ?n")
      case True
      then have "int k = idxForP r p" using nn by simp
      then show ?thesis using idxForP_own [of r p] by simp
    next
      case False
      then show ?thesis by simp
    qed
  qed
  show ?thesis
    by (simp add: clear_heap_def slot_set_def a m cong: if_cong)
qed

lemma drain_quiet:
  assumes "wf_refCount r h" and "pbits r = 8"
    and "\<And>j. slot h (counters r) (idxForP r j) = 0"
    and "length (refCounts l) = 2"
    and "refCounts l ! nat (sint (rem32 ((st AND 1) + 1) 2)) = Some r"
  shows "waitForNonVersionIndex st l h = Inr (l, drained r h)"
proof -
  let ?i = "nat (sint (rem32 ((st AND 1) + 1) 2))"
  have i: "0 \<le> sint (rem32 ((st AND 1) + 1) 2)" "?i < 2"
    by (auto simp add: nv_index)
  have w: "wait r h = Inr (scan_heap r 1 h)"
    using assms(1) by (rule wait_quiet) (rule assms(3))
  have "wf_refCount r (scan_heap r 1 h)"
    using assms(1) by (rule wf_refCount_ext) simp
  then have c: "clear r (scan_heap r 1 h) = Inr (drained r h)"
    unfolding drained_def by (rule clear_unfold)
  have "(refCounts l)[?i := Some r] = refCounts l"
    using assms(5) by (metis list_update_id)
  then have "l\<lparr>refCounts := (refCounts l)[?i := Some r]\<rparr> = l"
    by simp
  then show ?thesis
    using i assms(2,4,5) w c
    by (simp add: waitForNonVersionIndex_def Let_def allocateRefCount_def pbits_computed)
qed

lemma Next_second_steps:
  assumes "nonzero w" and "incrs w = 1" and "state l \<le> 3"
  shows "Next w l h =
     (case waitForNonVersionIndex (state l XOR 2) (l\<lparr>state := state l XOR 2\<rparr>) h of
        Inl e \<Rightarrow> Inl e
      | Inr (l2, h2) \<Rightarrow>
          (case waitForNonVersionIndex (state l XOR 3) (l2\<lparr>state := state l XOR 3\<rparr>) h2 of
             Inl e \<Rightarrow> Inl e
           | Inr (l4, h4) \<Rightarrow> Inr (True, w\<lparr>incrs := 2\<rparr>, l4, h4)))"
proof -
  have s1: "state l XOR 2 \<le> 3" using assms(3) xor_le_3 by blast
  have x: "(state l XOR 2) XOR 1 = state l XOR 3"
    by (simp add: xor.assoc)
  show ?thesis
    unfolding Next_def Let_def toggle_leftRight [OF assms(3)] toggle_versionIndex [OF s1] x
    using assms(1,2) by (auto simp add: byte_facts split: sum.splits)
qed

lemma wf_refCount_drained: "wf_refCount r' h \<Longrightarrow> wf_refCount r' (drained r h)"
  by (rule wf_refCount_ext [where h = h]) simp_all

lemma nv_index_cases:
  assumes "st \<le> 3"
  shows "nat (sint (rem32 (((st XOR 2) AND 1) + 1) 2)) = (if st AND 1 = 0 then 1 else 0)"
    and "nat (sint (rem32 (((st XOR 3) AND 1) + 1) 2)) = (if st AND 1 = 0 then 0 else 1)"
  using state_cases [OF assms] by auto

lemma Next_second_quiet:
  assumes "nonzero w" and "incrs w = 1" and "state l \<le> 3"
    and "refCounts l = [Some r0, Some r1]"
    and "wf_refCount r0 h" and "wf_refCount r1 h" and "pbits r0 = 8" and "pbits r1 = 8"
    and "counters r1 = counters r0 \<Longrightarrow> offset r1 \<noteq> offset r0"
    and "\<And>j. slot h (counters r0) (idxForP r0 j) = 0"
    and "\<And>j. slot h (counters r1) (idxForP r1 j) = 0"
  shows "Next w l h =
     Inr (True, w\<lparr>incrs := 2\<rparr>, l\<lparr>state := state l XOR 3\<rparr>,
          if state l AND 1 = 0 then drained r0 (drained r1 h) else drained r1 (drained r0 h))"
proof (cases "state l AND 1 = 0")
  case True
  let ?l1 = "l\<lparr>state := state l XOR 2\<rparr>"
  have a: "waitForNonVersionIndex (state l XOR 2) ?l1 h = Inr (?l1, drained r1 h)"
    using assms(6,8,11) by (rule drain_quiet) (simp_all add: assms(4) nv_index_cases [OF assms(3)] True)
  have d: "counters r0 = counters r1 \<Longrightarrow> offset r0 \<noteq> offset r1"
    using assms(9) by auto
  have q: "slot (drained r1 h) (counters r0) (idxForP r0 j) = 0" for j
    using drained_other [OF assms(6,5) d, of j] assms(10) by simp
  have b: "waitForNonVersionIndex (state l XOR 3) (l\<lparr>state := state l XOR 3\<rparr>) (drained r1 h)
      = Inr (l\<lparr>state := state l XOR 3\<rparr>, drained r0 (drained r1 h))"
    using wf_refCount_drained [OF assms(5)] assms(7) q
    by (rule drain_quiet) (simp_all add: assms(4) nv_index_cases [OF assms(3)] True)
  show ?thesis
    by (simp add: Next_second_steps [OF assms(1-3)] a b True)
next
  case False
  let ?l1 = "l\<lparr>state := state l XOR 2\<rparr>"
  have a: "waitForNonVersionIndex (state l XOR 2) ?l1 h = Inr (?l1, drained r0 h)"
    using assms(5,7,10) by (rule drain_quiet) (simp_all add: assms(4) nv_index_cases [OF assms(3)] False)
  have q: "slot (drained r0 h) (counters r1) (idxForP r1 j) = 0" for j
    using drained_other [OF assms(5,6) assms(9), of j] assms(11) by simp
  have b: "waitForNonVersionIndex (state l XOR 3) (l\<lparr>state := state l XOR 3\<rparr>) (drained r0 h)
      = Inr (l\<lparr>state := state l XOR 3\<rparr>, drained r1 (drained r0 h))"
    using wf_refCount_drained [OF assms(6)] assms(8) q
    by (rule drain_quiet) (simp_all add: assms(4) nv_index_cases [OF assms(3)] False)
  show ?thesis
    by (simp add: Next_second_steps [OF assms(1-3)] a b False)
qed

subsection \<open>The run with a late reader\<close>

lemma RLock_split:
  "RLock l h =
     (case once_Do_init l h of
        Inl e \<Rightarrow> Inl e
      | Inr (l1, h1) \<Rightarrow> RLock_after_load (state l1) l1 h1)"
  by (simp add: RLock_def RLock_after_load_def Let_def split: sum.splits)

lemma after_drains:
  "after_first_drain = drained fresh_rc1 fresh_heap"
  "after_second_drain = drained fresh_rc0 after_first_drain"
  by (simp_all add: after_first_drain_def after_second_drain_def drained_def)

lemma after_second_drain_wf:
  "wf_refCount fresh_rc0 after_second_drain" "wf_refCount fresh_rc1 after_second_drain"
  unfolding after_drains(2) using after_first_drain_wf by (simp_all add: wf_refCount_drained)

lemma after_second_drain_slots:
  "slot after_second_drain 0 (idxForP fresh_rc0 j) = 0"
  "slot after_second_drain 0 (idxForP fresh_rc1 j) = 0"
proof -
  show "slot after_second_drain 0 (idxForP fresh_rc0 j) = 0"
    using drained_own [OF after_first_drain_wf(1), of j] by (simp add: after_drains(2))
  have "slot after_first_drain 0 (idxForP fresh_rc1 j) = 0"
    using drained_own [OF fresh_wf(2), of j] by (simp add: after_drains(1))
  then show "slot after_second_drain 0 (idxForP fresh_rc1 j) = 0"
    using drained_other [OF after_first_drain_wf(1,2), of j] by (simp add: after_drains(2))
qed

lemma late_acquire:
  "acquire fresh_rc0 (scan_heap fresh_rc0 1 after_first_drain) = Inr (16, late_heap)"
proof -
  let ?h = "scan_heap fresh_rc0 1 after_first_drain"
  have v: "valid_slot after_first_drain (counters fresh_rc0) (idxForP fresh_rc0 1)"
    using after_first_drain_wf(1) by (rule idxForP_valid)
  have "idxForP fresh_rc0 1 \<in> idxForP fresh_rc0 ` {1..maxPid fresh_rc0}"
    by (rule imageI) (simp add: maxPid_eq)
  then have "slot ?h (counters fresh_rc0) (idxForP fresh_rc0 1)
      = slot after_first_drain (counters fresh_rc0) (idxForP fresh_rc0 1) - 1"
    using slot_scan_heap [OF v, of 1] by simp
  then have s: "slot ?h 0 16 = - 1"
    using after_first_drain_slots [of 1] by (simp add: fresh_rc0_idx)
  have "valid_slot ?h (counters fresh_rc0) (idxForP fresh_rc0 (getp + 1))"
    using v by (simp add: getp_def)
  then show ?thesis
    using s by (simp add: acquire_spec getp_def fresh_rc0_idx MaxInt32_def late_heap_def)
qed

lemma late_clear: "allocateRefCount (Some fresh_rc0) late_heap = Inr (fresh_rc0, after_second_drain)"
proof -
  let ?h = "scan_heap fresh_rc0 1 after_first_drain"
  have w: "wf_refCount fresh_rc0 ?h"
    using after_first_drain_wf(1) by (rule wf_refCount_ext) simp
  have l: "late_heap = slot_set (counters fresh_rc0) (idxForP fresh_rc0 1) 0 ?h"
    by (simp add: late_heap_def fresh_rc0_idx)
  have "wf_refCount fresh_rc0 late_heap"
    using w by (simp add: l)
  then have "clear fresh_rc0 late_heap = Inr (clear_heap fresh_rc0 0 late_heap)"
    by (rule clear_unfold)
  also have "clear_heap fresh_rc0 0 late_heap = after_second_drain"
    unfolding l clear_heap_absorb [OF w] by (simp add: after_second_drain_def)
  finally show ?thesis
    by (simp add: allocateRefCount_def pbits_computed)
qed

lemma late_RLock:
  "RLock_after_load 0 (locked_mutex\<lparr>state := 3\<rparr>) (scan_heap fresh_rc0 1 after_first_drain) =
     Inr (late_token, locked_mutex\<lparr>state := 3\<rparr>, late_heap)"
  by (simp add: RLock_after_load_def late_acquire locked_mutex_def late_token_def int16_fits)

lemma first_drain_fresh:
  "waitForNonVersionIndex 2 (locked_mutex\<lparr>state := 2\<rparr>) fresh_heap =
     Inr (locked_mutex\<lparr>state := 2\<rparr>, after_first_drain)"
  unfolding after_drains(1)
  using fresh_wf(2) by (rule drain_quiet) (simp_all add: fresh_slots locked_mutex_def nv_index)

lemma second_Lock:
  "Lock released_mutex after_second_drain =
     Inr (second_LockToken, released_mutex\<lparr>wmu := True\<rparr>, after_second_drain)"
  by (simp add: Lock_def once_Do_init_def released_mutex_def second_LockToken_def Let_def)

lemma second_writer_Next:
  "Next (second_LockToken\<lparr>incrs := 1\<rparr>) (released_mutex\<lparr>wmu := True\<rparr>) after_second_drain =
     Inr (True, second_LockToken\<lparr>incrs := 2\<rparr>, released_mutex\<lparr>wmu := True, state := 0\<rparr>,
          drained fresh_rc1 (drained fresh_rc0 after_second_drain))"
proof -
  have "Next (second_LockToken\<lparr>incrs := 1\<rparr>) (released_mutex\<lparr>wmu := True\<rparr>) after_second_drain =
     Inr (True, second_LockToken\<lparr>incrs := 1, incrs := 2\<rparr>,
          released_mutex\<lparr>wmu := True, state := state (released_mutex\<lparr>wmu := True\<rparr>) XOR 3\<rparr>,
          if state (released_mutex\<lparr>wmu := True\<rparr>) AND 1 = 0
          then drained fresh_rc0 (drained fresh_rc1 after_second_drain)
          else drained fresh_rc1 (drained fresh_rc0 after_second_drain))"
    by (rule Next_second_quiet [where ?r0.0 = fresh_rc0 and ?r1.0 = fresh_rc1])
       (simp_all add: second_LockToken_def released_mutex_def after_second_drain_wf
         after_second_drain_slots)
  then show ?thesis
    by (simp add: released_mutex_def)
qed

subsection \<open>Outcomes depend on the own slots only\<close>

lemma outcome_simps [simp]: "outcome (Inl e) = Some e" "outcome (Inr y) = None"
  by (simp_all add: outcome_def)

lemma chan_send_outcome_eq: "chans h = chans g \<Longrightarrow> outcome (chan_send c h) = outcome (chan_send c g)"
  by (simp add: chan_send_def split: option.splits)

lemma chan_recv_outcome_eq: "chans h = chans g \<Longrightarrow> outcome (chan_recv c h) = outcome (chan_recv c g)"
  by (simp add: chan_recv_def split: option.splits)

lemma acquire_reads_own:
  assumes "wf_refCount r h" "wf_refCount r g"
    and "\<forall>p. slot h (counters r) (idxForP r p) = slot g (counters r) (idxForP r p)"
  shows "map_sum id fst (acquire r h) = map_sum id fst (acquire r g)"
  using assms(3) by (simp add: acquire_spec idxForP_valid [OF assms(1)] idxForP_valid [OF assms(2)])

lemma release_reads_own:
  assumes "wf_refCount r h" "wf_refCount r g"
    and "\<forall>p. slot h (counters r) (idxForP r p) = slot g (counters r) (idxForP r p)"
    and "chans h = chans g"
  shows "outcome (release r (idxForP r p) h) = outcome (release r (idxForP r p) g)"
proof -
  let ?a = "counters r" and ?t = "idxForP r p" and ?z = "idxForP r 0"
  have vh: "valid_slot h ?a ?t" "valid_slot h ?a ?z"
    using assms(1) by (simp_all add: idxForP_valid)
  have vg: "valid_slot g ?a ?t" "valid_slot g ?a ?z"
    using assms(2) by (simp_all add: idxForP_valid)
  have e: "slot h ?a ?t = slot g ?a ?t" "slot h ?a ?z = slot g ?a ?z"
    using assms(3) by simp_all
  have nn: "0 \<le> ?t" "0 \<le> ?z"
    using vh by (simp_all add: valid_slot_def)
  have z: "slot (slot_set ?a ?t v h) ?a ?z = slot (slot_set ?a ?t v g) ?a ?z" for v
  proof (cases "?z = ?t")
    case True
    then show ?thesis using vh vg by simp
  next
    case False
    then have "nat ?z \<noteq> nat ?t" using nn by simp
    then show ?thesis by (simp add: slot_slot_set_other e)
  qed
  show ?thesis
    using chan_send_outcome_eq [of "slot_set ?a ?z v (slot_set ?a ?t u h)"
        "slot_set ?a ?z v (slot_set ?a ?t u g)" "waitch r" for u v]
    by (simp add: release_unfold [OF vh] release_unfold [OF vg] e z assms(4) Let_def)
qed

lemma armed_reads_own:
  assumes "\<forall>p. slot h (counters r) (idxForP r p) = slot g (counters r) (idxForP r p)"
  shows "armed r i h = armed r i g"
  using assms by (simp add: armed_def)

lemma wait_reads_own:
  assumes "wf_refCount r h" "wf_refCount r g"
    and "\<forall>p. slot h (counters r) (idxForP r p) = slot g (counters r) (idxForP r p)"
    and "chans h = chans g"
  shows "outcome (wait r h) = outcome (wait r g)"
proof -
  have a: "armed r 1 h = armed r 1 g"
    using assms(3) by (rule armed_reads_own)
  have z: "slot h (counters r) (idxForP r 0) = slot g (counters r) (idxForP r 0)"
    using assms(3) by simp
  show ?thesis
    using chan_recv_outcome_eq [of "slot_set (counters r) (idxForP r 0) v (scan_heap r 1 h)"
        "slot_set (counters r) (idxForP r 0) v (scan_heap r 1 g)" "waitch r" for v]
    by (simp add: wait_unfold [OF assms(1)] wait_unfold [OF assms(2)] a z assms(4) Let_def)
qed

lemma clear_reads_own:
  assumes "wf_refCount r h" "wf_refCount r g"
  shows "outcome (clear r h) = outcome (clear r g)"
  by (simp add: clear_unfold [OF assms(1)] clear_unfold [OF assms(2)])

lemma other_heap_wf: "wf_refCount example_rc other_heap"
  by (simp add: wf_refCount_def other_heap_def slotsPerCacheLineBits_def)

lemma other_heap_agrees:
  "slot other_heap (counters example_rc) (idxForP example_rc p) =
   slot example_heap (counters example_rc) (idxForP example_rc p)"
proof -
  have "idxForP example_rc p mod 16 = 3"
    using idxForP_mod [of example_rc p] by simp
  then have "idxForP example_rc p \<noteq> 20"
    by auto
  moreover have "0 \<le> idxForP example_rc p"
    using example_idx_bounds by simp
  ultimately have "nat (idxForP example_rc p) \<noteq> 20"
    by simp
  then show ?thesis
    by (simp add: slot_def other_heap_def example_heap_def)
qed

subsection \<open>The shard bits, and a reader that is counted\<close>

lemma shardBits_spec_4: "shardBits_spec gomaxprocs = 3"
  by (simp add: shardBits_spec_def gomaxprocs_def bits_needed.simps)

lemma shardBits_spec_log: "2 ^ shardBits_spec gomaxprocs = roundNearestPowerOf2 (gomaxprocs + 1)"
  by (simp add: shardBits_spec_4 rounded_computed)

lemma armed_counted: "armed fresh_rc0 1 (slot_set 0 16 1 after_second_drain) = {1}"
proof -
  have v: "valid_slot after_second_drain 0 16"
    using idxForP_valid [OF after_second_drain_wf(1), of 1] by (simp add: fresh_rc0_idx)
  have one: "slot (slot_set 0 16 1 after_second_drain) 0 (idxForP fresh_rc0 1) = 1"
    using v by (simp add: fresh_rc0_idx)
  have other: "slot (slot_set 0 16 1 after_second_drain) 0 (idxForP fresh_rc0 j) = 0"
    if "1 \<le> j" "j \<le> maxPid fresh_rc0" "j \<noteq> 1" for j
  proof -
    have "idxForP fresh_rc0 j \<noteq> idxForP fresh_rc0 1"
      using idxForP_inj [of j fresh_rc0 1] that by (auto simp add: maxPid_eq)
    moreover have "0 \<le> idxForP fresh_rc0 j"
      using idxForP_bounds(1) [of fresh_rc0 j] by simp
    ultimately have "nat (idxForP fresh_rc0 j) \<noteq> nat 16"
      by (simp add: fresh_rc0_idx)
    then show ?thesis
      by (simp add: slot_slot_set_other after_second_drain_slots)
  qed
  have m: "(1::int) \<le> maxPid fresh_rc0" by (simp add: maxPid_eq)
  show ?thesis
  proof (rule set_eqI)
    fix j show "j \<in> armed fresh_rc0 1 (slot_set 0 16 1 after_second_drain) \<longleftrightarrow> j \<in> {1}"
    proof (cases "j = 1")
      case True
      then show ?thesis using one m by (simp add: armed_def word_sle_eq)
    next
      case False
      then show ?thesis using other [of j] by (auto simp add: armed_def word_sle_eq)
    qed
  qed
qed

lemma chans_clear_heap [simp]: "chans (clear_heap r i h) = chans h"
  by (simp add: clear_heap_def)

lemma counted_reader_blocks: "wait fresh_rc0 (slot_set 0 16 1 after_second_drain) = Inl Blocked"
proof -
  have w: "wf_refCount fresh_rc0 (slot_set 0 16 1 after_second_drain)"
    using after_second_drain_wf(1) by simp
  have z: "slot (slot_set 0 16 1 after_second_drain) 0 (idxForP fresh_rc0 0) = 0"
    using after_second_drain_slots(1) [of 0] by (simp add: fresh_rc0_idx slot_slot_set_other)
  have pos: "0 <s (1::int32)" by (simp add: word_sless_alt)
  have ch: "chans after_second_drain = [0, 0]"
    by (simp add: after_second_drain_def after_first_drain_def) (simp add: fresh_heap_def)
  show ?thesis
    by (simp add: wait_unfold [OF w] armed_counted z pos chan_recv_def ch Let_def)
qed

section \<open>release\<close>



text \<open>
  C10. On a counter with no drain in progress (each of its slots is \<open>\<ge> 0\<close>), when
  \<open>acquire\<close> returns a handle, \<open>release\<close> of that handle returns the heap \<open>acquire\<close>
  started from: every counter slot has its old value again, the aggregation slot and the
  channel are as they were, so the release took the ordinary path and sent nothing.
  (\<open>acquire\<close> returns a handle unless the slot held \<open>MaxInt32 - 1\<close>: lemma
  \<open>acquire_spec\<close>.)
\<close>

theorem acquire_release_roundtrip:
  assumes "\<forall>p. 0 \<le>s slot h (counters r) (idxForP r p)"
    and "acquire r h = Inr (t, h1)"
  shows "release r t h1 = Inr h"
proof -
  let ?i = "idxForP r (getp + 1)"
  have v: "valid_slot h (counters r) ?i"
    using assms(2)
    by (cases "valid_slot h (counters r) ?i") (simp_all add: acquire_def AddInt32_invalid)
  from assms(2) v have t: "t = ?i"
    and h1: "h1 = slot_set (counters r) ?i (slot h (counters r) ?i + 1) h"
    by (auto simp add: acquire_def AddInt32_valid Let_def split: if_splits)
  have "0 \<le>s slot h (counters r) ?i"
    using assms(1) by blast
  then show ?thesis
    using v by (simp add: t h1 release_def AddInt32_valid slot_set_overwrite slot_set_id)
qed

theorem acquire_release_roundtrip_witness:
  "(\<forall>p. 0 \<le>s slot example_heap (counters example_rc) (idxForP example_rc p)) \<and>
   acquire example_rc example_heap = Inr (19, slot_set 0 19 1 example_heap) \<and>
   release example_rc 19 (slot_set 0 19 1 example_heap) = Inr example_heap"
proof -
  have a: "\<forall>p. 0 \<le>s slot example_heap (counters example_rc) (idxForP example_rc p)"
    using example_idx_bounds by (simp add: example_slot)
  have b: "acquire example_rc example_heap = Inr (19, slot_set 0 19 1 example_heap)"
    using acquire_spec [of example_heap example_rc]
    by (simp add: getp_def example_idx example_valid example_slot MaxInt32_def)
  show ?thesis
    using a b acquire_release_roundtrip [OF a b] by simp
qed

section \<open>allocateRefCount\<close>

text \<open>
  C2. The comment on \<open>pbits\<close> and the use in \<open>maxPid\<close> (\<open>1 << pbits - 1\<close>) make \<open>pbits\<close> a
  number of bits: with \<open>gomaxprocs () = 4\<close> the five shards round up to 8, which takes 3
  bits (\<open>shardBits_spec\<close>). \<open>allocateRefCount\<close> stores the rounded value 8 itself, so a
  fresh \<open>refCount\<close> has 255 as its highest shard number and an array of 4096 slots.
\<close>

theorem allocateRefCount_stores_rounded_value:
  "allocateRefCount None empty_heap =
     Inr (\<lparr>pbits = 8, counters = 0, offset = 0, waitch = Some 0\<rparr>,
          \<lparr>arrays = [replicate 4096 0], chans = [0],
           pool = [\<lparr>pbits = 8, counters = 0, offset = 1, waitch = None\<rparr>]\<rparr>) \<and>
   roundNearestPowerOf2 (gomaxprocs + 1) = 8 \<and>
   shardBits_spec gomaxprocs = 3 \<and>
   maxPid \<lparr>pbits = 8, counters = 0, offset = 0, waitch = Some 0\<rparr> = 255"
  by (simp add: allocateRefCount_def pbits_computed rounded_computed allocate_pooled_def
      allocate_new_def pool_Get_def pool_Put_def make_chan_def make_counters_def
      empty_heap_def slotsPerCacheLineBits_def Let_def maxPid_eq uint_of_def shardBits_spec_4)

section \<open>Reader tokens and the range checks\<close>

text \<open>
  C3. \<open>RUnlock\<close> is marked to panic on a token that was released before
  (\<open>r.tok == -1\<close>), and it sets \<open>r.tok = -1\<close> when it has released. Its receiver is a
  value, so the mark lands on a copy and the caller's token never carries it: on a fresh
  mutex, \<open>RLock\<close> followed by two \<open>RUnlock\<close> of the returned token runs \<open>release\<close>
  twice. The second one takes the slot from 0 to \<open>-1\<close> and the aggregation slot with it,
  and returns; \<open>Idx\<close> still answers on the released token. On the zero token both
  panic.
\<close>

theorem RUnlock_twice_not_detected:
  "RLock zero_LRMutex empty_heap = Inr (first_token, fresh_mutex, slot_set 0 16 1 fresh_heap) \<and>
   RUnlock first_token (slot_set 0 16 1 fresh_heap) = Inr (slot_set 0 16 0 fresh_heap) \<and>
   RUnlock first_token (slot_set 0 16 0 fresh_heap) =
     Inr (slot_set 0 0 (- 1) (slot_set 0 16 (- 1) fresh_heap)) \<and>
   RLockToken_Idx first_token = Inr 0 \<and>
   RUnlock zero_RLockToken h = Inl (Panic ''Use of a zero RLockToken is invalid.'') \<and>
   RLockToken_Idx zero_RLockToken = Inl (Panic ''Use of a zero RLockToken is invalid.'')"
proof -
  have a: "RLock zero_LRMutex empty_heap = Inr (first_token, fresh_mutex, slot_set 0 16 1 fresh_heap)"
    using RLock_unfold [OF once_Do_init_zero, of fresh_rc0 16 "slot_set 0 16 1 fresh_heap"] acquire_fresh
    by (simp add: fresh_mutex_def first_token_def)
  have b: "RUnlock first_token (slot_set 0 16 1 fresh_heap) = Inr (slot_set 0 16 0 fresh_heap)"
    using release_unfold [of "slot_set 0 16 1 fresh_heap" fresh_rc0 16]
    by (simp add: RUnlock_def first_token_def fresh_valid fresh_rc0_idx slot_set_overwrite)
  have c: "RUnlock first_token (slot_set 0 16 0 fresh_heap) =
     Inr (slot_set 0 0 (- 1) (slot_set 0 16 (- 1) fresh_heap))"
    using release_unfold [of "slot_set 0 16 0 fresh_heap" fresh_rc0 16]
    by (simp add: RUnlock_def first_token_def fresh_valid fresh_rc0_idx slot_set_overwrite
        slot_slot_set_other fresh_slot Let_def)
  have d: "RLockToken_Idx first_token = Inr 0"
    "RUnlock zero_RLockToken h = Inl (Panic ''Use of a zero RLockToken is invalid.'')"
    "RLockToken_Idx zero_RLockToken = Inl (Panic ''Use of a zero RLockToken is invalid.'')"
    by (simp_all add: RLockToken_Idx_def RUnlock_def first_token_def zero_RLockToken_def)
  show ?thesis using a b c d by simp
qed

text \<open>
  C8. \<open>acquire\<close> panics exactly when its increment brings the slot to \<open>MaxInt32\<close>, and
  \<open>RLock\<close> panics when the handle \<open>acquire\<close> returned is outside the range of \<open>int16\<close>.
  Both are immediate: the panic is the outcome of the call.
\<close>

theorem acquire_RLock_range_panics:
  "(valid_slot h (counters r) (idxForP r (getp + 1)) \<longrightarrow>
      (acquire r h = Inl (Panic ''refCount does not support more than 2 billion acquires.'')
       \<longleftrightarrow> slot h (counters r) (idxForP r (getp + 1)) + 1 = MaxInt32)) \<and>
   (once_Do_init l h0 = Inr (l1, h1) \<and> length (refCounts l1) = 2 \<and>
    refCounts l1 ! nat (sint (state l1 AND 1)) = Some r1 \<and>
    acquire r1 h1 = Inr (t, h2) \<and> (t < - 32768 \<or> 32767 < t) \<longrightarrow>
      RLock l h0 =
        Inl (Panic ''internal state error: refCount returned a token larger than 2^16.''))"
proof (intro conjI impI)
  assume "valid_slot h (counters r) (idxForP r (getp + 1))"
  then show "acquire r h = Inl (Panic ''refCount does not support more than 2 billion acquires.'')
       \<longleftrightarrow> slot h (counters r) (idxForP r (getp + 1)) + 1 = MaxInt32"
    by (simp add: acquire_spec)
next
  assume a: "once_Do_init l h0 = Inr (l1, h1) \<and> length (refCounts l1) = 2 \<and>
    refCounts l1 ! nat (sint (state l1 AND 1)) = Some r1 \<and>
    acquire r1 h1 = Inr (t, h2) \<and> (t < - 32768 \<or> 32767 < t)"
  then show "RLock l h0 =
        Inl (Panic ''internal state error: refCount returned a token larger than 2^16.'')"
    using RLock_unfold [of l h0 l1 h1 r1 t h2] by simp
qed

theorem acquire_RLock_range_panics_witness:
  "valid_slot full_heap (counters example_rc) (idxForP example_rc (getp + 1)) \<and>
   slot full_heap (counters example_rc) (idxForP example_rc (getp + 1)) + 1 = MaxInt32 \<and>
   acquire example_rc full_heap =
     Inl (Panic ''refCount does not support more than 2 billion acquires.'') \<and>
   once_Do_init far_mutex far_heap = Inr (far_mutex, far_heap) \<and>
   length (refCounts far_mutex) = 2 \<and>
   refCounts far_mutex ! nat (sint (state far_mutex AND 1)) = Some far_rc \<and>
   acquire far_rc far_heap = Inr (40016, slot_set 1 40016 1 far_heap) \<and>
   RLock far_mutex far_heap =
     Inl (Panic ''internal state error: refCount returned a token larger than 2^16.'')"
proof -
  have v: "valid_slot full_heap (counters example_rc) (idxForP example_rc (getp + 1))"
    and s: "slot full_heap (counters example_rc) (idxForP example_rc (getp + 1)) + 1 = MaxInt32"
    by (simp_all add: getp_def example_idx valid_slot_def slot_def full_heap_def MaxInt32_def)
  have o: "once_Do_init far_mutex far_heap = Inr (far_mutex, far_heap)"
    and n: "length (refCounts far_mutex) = 2"
    and f: "refCounts far_mutex ! nat (sint (state far_mutex AND 1)) = Some far_rc"
    by (simp_all add: once_Do_init_def far_mutex_def)
  show ?thesis
    using v s o n f acquire_far
      acquire_RLock_range_panics [where h = full_heap and r = example_rc and l = far_mutex
        and ?h0.0 = far_heap and ?l1.0 = far_mutex and ?h1.0 = far_heap and ?r1.0 = far_rc
        and t = 40016 and ?h2.0 = "slot_set 1 40016 1 far_heap"]
    by simp
qed

section \<open>wait and the isolation of offsets\<close>

text \<open>
  C5. \<open>wait\<close> decrements each shard \<open>1, \<dots>, maxPid\<close> once (\<open>scan_heap r 1\<close>, which
  leaves the aggregation slot and the channels alone) and counts the shards whose
  decremented value is \<open>\<ge> 0\<close> (\<open>armed r 1\<close>). With a count of zero it returns the scanned
  heap at once. Otherwise it adds the count to the aggregation slot \<open>idxForP 0\<close>, and it
  receives from \<open>waitch\<close> exactly when the slot is then \<open>> 0\<close>: the receive parks the
  writer until a release has sent.
\<close>

theorem wait_spec:
  assumes "wf_refCount r h"
  shows "wait r h =
     (let n = card (armed r 1 h);
          h1 = scan_heap r 1 h
      in if n = 0 then Inr h1
         else let v = slot h (counters r) (idxForP r 0) + of_nat n;
                  h2 = slot_set (counters r) (idxForP r 0) v h1
              in if 0 <s v then chan_recv (waitch r) h2 else Inr h2) \<and>
   (\<forall>i \<in> {1..maxPid r}.
      slot (scan_heap r 1 h) (counters r) (idxForP r i) = slot h (counters r) (idxForP r i) - 1) \<and>
   slot (scan_heap r 1 h) (counters r) (idxForP r 0) = slot h (counters r) (idxForP r 0) \<and>
   chans (scan_heap r 1 h) = chans h"
proof (intro conjI ballI)
  show "wait r h =
     (let n = card (armed r 1 h);
          h1 = scan_heap r 1 h
      in if n = 0 then Inr h1
         else let v = slot h (counters r) (idxForP r 0) + of_nat n;
                  h2 = slot_set (counters r) (idxForP r 0) v h1
              in if 0 <s v then chan_recv (waitch r) h2 else Inr h2)"
    using assms by (rule wait_unfold)
next
  fix i assume "i \<in> {1..maxPid r}"
  then show "slot (scan_heap r 1 h) (counters r) (idxForP r i) = slot h (counters r) (idxForP r i) - 1"
    using idxForP_valid [OF assms, of i] by (simp add: slot_scan_heap)
next
  show "slot (scan_heap r 1 h) (counters r) (idxForP r 0) = slot h (counters r) (idxForP r 0)"
    using idxForP_valid [OF assms, of 0] idxForP_0_notin [of 1 r] by (simp add: slot_scan_heap)
next
  show "chans (scan_heap r 1 h) = chans h"
    by simp
qed

theorem wait_spec_witness:
  "wf_refCount example_rc busy_heap \<and>
   card (armed example_rc 1 busy_heap) = 1 \<and>
   wait example_rc busy_heap = Inl Blocked \<and>
   slot (scan_heap example_rc 1 busy_heap) 0 19 = 1"
proof -
  note w = wait_spec [OF example_wf(3)]
  have c: "card (armed example_rc 1 busy_heap) = 1"
    by (simp add: armed_busy)
  have a: "slot busy_heap 0 3 = 0" and b: "slot busy_heap 0 19 = 2"
    and ch: "chans busy_heap = [0]"
    by (simp_all add: slot_def busy_heap_def)
  have m: "(1::int) \<in> {1..maxPid example_rc}"
    by (simp add: maxPid_eq)
  have pos: "0 <s (1::int32)"
    by (simp add: word_sless_alt)
  have "slot (scan_heap example_rc 1 busy_heap) (counters example_rc) (idxForP example_rc 1)
      = slot busy_heap (counters example_rc) (idxForP example_rc 1) - 1"
    using w m by blast
  then have s: "slot (scan_heap example_rc 1 busy_heap) 0 19 = 1"
    by (simp add: example_idx b)
  have "wait example_rc busy_heap =
     (let n = card (armed example_rc 1 busy_heap);
          h1 = scan_heap example_rc 1 busy_heap
      in if n = 0 then Inr h1
         else let v = slot busy_heap (counters example_rc) (idxForP example_rc 0) + of_nat n;
                  h2 = slot_set (counters example_rc) (idxForP example_rc 0) v h1
              in if 0 <s v then chan_recv (waitch example_rc) h2 else Inr h2)"
    using w by blast
  then have "wait example_rc busy_heap = Inl Blocked"
    by (simp add: c a pos ch example_idx chan_recv_def Let_def)
  then show ?thesis
    using example_wf(3) c s by simp
qed

text \<open>
  C9. Two instances on one \<open>counters\<close> array with different offsets, both as the
  allocator builds them (\<open>wf_refCount\<close>: the offset inside a cache line). Writes:
  whatever \<open>acquire\<close>, \<open>release\<close> of a handle of the instance, \<open>wait\<close> and \<open>clear\<close> of the
  one return, every slot \<open>idxForP r' q\<close> of the other holds the value it held before.
  Reads: on a heap \<open>g\<close> that agrees with \<open>h\<close> on the slots of the instance and on the
  channels, and is free elsewhere, each of the four ends as on \<open>h\<close>: the same panic,
  parking or return, and the same handle.
\<close>

theorem offset_isolation:
  assumes "wf_refCount r h" and "wf_refCount r' h"
    and "counters r' = counters r" and "offset r' \<noteq> offset r"
  shows "(acquire r h = Inr (t, h1) \<longrightarrow>
            slot h1 (counters r') (idxForP r' q) = slot h (counters r') (idxForP r' q)) \<and>
         (release r (idxForP r p) h = Inr h2 \<longrightarrow>
            slot h2 (counters r') (idxForP r' q) = slot h (counters r') (idxForP r' q)) \<and>
         (wait r h = Inr h3 \<longrightarrow>
            slot h3 (counters r') (idxForP r' q) = slot h (counters r') (idxForP r' q)) \<and>
         (clear r h = Inr h4 \<longrightarrow>
            slot h4 (counters r') (idxForP r' q) = slot h (counters r') (idxForP r' q)) \<and>
         (wf_refCount r g \<and> chans g = chans h \<and>
          (\<forall>j. slot g (counters r) (idxForP r j) = slot h (counters r) (idxForP r j)) \<longrightarrow>
            map_sum id fst (acquire r g) = map_sum id fst (acquire r h) \<and>
            outcome (release r (idxForP r p) g) = outcome (release r (idxForP r p) h) \<and>
            outcome (wait r g) = outcome (wait r h) \<and>
            outcome (clear r g) = outcome (clear r h))"
  using acquire_frame [OF assms(1,2,4)] release_frame [OF assms(1,2,4)]
    wait_frame [OF assms] clear_frame [OF assms]
    acquire_reads_own [of r g h] release_reads_own [of r g h] wait_reads_own [of r g h]
    clear_reads_own [of r g h] assms(1)
  by blast

theorem offset_isolation_witness:
  "wf_refCount example_rc example_heap \<and> wf_refCount neighbour_rc example_heap \<and>
   counters neighbour_rc = counters example_rc \<and> offset neighbour_rc \<noteq> offset example_rc \<and>
   acquire example_rc example_heap = Inr (19, slot_set 0 19 1 example_heap) \<and>
   release example_rc (idxForP example_rc 1) example_heap =
     Inr (slot_set 0 3 (- 1) (slot_set 0 19 (- 1) example_heap)) \<and>
   wait example_rc example_heap = Inr (scan_heap example_rc 1 example_heap) \<and>
   clear example_rc example_heap = Inr (clear_heap example_rc 0 example_heap) \<and>
   slot (slot_set 0 19 1 example_heap) (counters neighbour_rc) (idxForP neighbour_rc 1) =
     slot example_heap (counters neighbour_rc) (idxForP neighbour_rc 1) \<and>
   slot (slot_set 0 3 (- 1) (slot_set 0 19 (- 1) example_heap)) (counters neighbour_rc)
       (idxForP neighbour_rc 1) =
     slot example_heap (counters neighbour_rc) (idxForP neighbour_rc 1) \<and>
   slot (scan_heap example_rc 1 example_heap) (counters neighbour_rc) (idxForP neighbour_rc 1) =
     slot example_heap (counters neighbour_rc) (idxForP neighbour_rc 1) \<and>
   slot (clear_heap example_rc 0 example_heap) (counters neighbour_rc) (idxForP neighbour_rc 1) =
     slot example_heap (counters neighbour_rc) (idxForP neighbour_rc 1) \<and>
   wf_refCount example_rc other_heap \<and> chans other_heap = chans example_heap \<and>
   (\<forall>j. slot other_heap (counters example_rc) (idxForP example_rc j) =
        slot example_heap (counters example_rc) (idxForP example_rc j)) \<and>
   slot other_heap 0 20 = 7 \<and> slot example_heap 0 20 = 0 \<and>
   map_sum id fst (acquire example_rc other_heap) = Inr 19 \<and>
   outcome (release example_rc (idxForP example_rc 1) other_heap) = None \<and>
   outcome (wait example_rc other_heap) = None \<and>
   outcome (clear example_rc other_heap) = None"
proof -
  have c: "counters neighbour_rc = counters example_rc"
    and o: "offset neighbour_rc \<noteq> offset example_rc"
    by (simp_all add: neighbour_rc_def)
  have g: "chans other_heap = chans example_heap"
    "slot other_heap 0 20 = 7" "slot example_heap 0 20 = 0"
    by (simp_all add: other_heap_def example_heap_def slot_def)
  have a: "\<forall>j. slot other_heap (counters example_rc) (idxForP example_rc j) =
        slot example_heap (counters example_rc) (idxForP example_rc j)"
    using other_heap_agrees by blast
  show ?thesis
    using example_wf(1,2) c o example_acquire example_release example_wait example_clear
      other_heap_wf g a
      offset_isolation [OF example_wf(1,2) c o, where t = 19 and ?h1.0 = "slot_set 0 19 1 example_heap"
        and p = 1 and ?h2.0 = "slot_set 0 3 (- 1) (slot_set 0 19 (- 1) example_heap)"
        and ?h3.0 = "scan_heap example_rc 1 example_heap"
        and ?h4.0 = "clear_heap example_rc 0 example_heap" and q = 1 and g = other_heap]
    by simp
qed

section \<open>The write protocol\<close>

text \<open>
  C1. On a token issued by \<open>Lock\<close>, the first \<open>Next\<close> returns true. The second one
  performs the two drains: it returns true, unless the writer parks in \<open>wait\<close> on a
  registered reader (\<open>Blocked\<close>: alone, it never returns; it neither panics nor returns
  false). It does return when no reader is registered: every slot of the two counters
  holds 0, the two being what \<open>allocateRefCount\<close> hands out (8 as \<open>pbits\<close>, and
  different offsets when they share an array). On the token it returned, the third
  \<open>Next\<close> unlocks and returns false, and the fourth panics. \<open>Next\<close> on the zero token
  panics, whatever the mutex. The mutex and the pool are taken as the allocator leaves
  them (\<open>wf_LRMutex\<close>, \<open>wf_heap\<close>); the zero mutex and the empty heap are.
\<close>

theorem Next_true_true_false:
  assumes "wf_heap h" and "wf_LRMutex l h" and "Lock l h = Inr (w, l0, h0)"
  shows "Next zero_LockToken lz hz = Inl (Panic ''Use of a zero LockToken is invalid.'') \<and>
         Next w l0 h0 = Inr (True, w\<lparr>incrs := 1\<rparr>, l0, h0) \<and>
         (Next (w\<lparr>incrs := 1\<rparr>) l0 h0 = Inl Blocked \<or>
          (\<exists>l2 h2.
             Next (w\<lparr>incrs := 1\<rparr>) l0 h0 = Inr (True, w\<lparr>incrs := 2\<rparr>, l2, h2) \<and>
             Next (w\<lparr>incrs := 2\<rparr>) l2 h2 =
               Inr (False, w\<lparr>incrs := 3\<rparr>, l2\<lparr>wmu := False\<rparr>, h2) \<and>
             Next (w\<lparr>incrs := 3\<rparr>) (l2\<lparr>wmu := False\<rparr>) h2 =
               Inl (Panic ''Cannot call Next() again after it has returned false.''))) \<and>
         (refCounts l0 = [Some r0, Some r1] \<and> pbits r0 = 8 \<and> pbits r1 = 8 \<and>
          (counters r1 = counters r0 \<longrightarrow> offset r1 \<noteq> offset r0) \<and>
          (\<forall>j. slot h0 (counters r0) (idxForP r0 j) = 0) \<and>
          (\<forall>j. slot h0 (counters r1) (idxForP r1 j) = 0) \<longrightarrow>
            Next (w\<lparr>incrs := 1\<rparr>) l0 h0 \<noteq> Inl Blocked)"
proof -
  have L: "wf_heap h0" "wf_LRMutex l0 h0" "once l0" "wmu l0" "nonzero w" "incrs w = 0"
    using Lock_wf [OF assms] by auto
  have first: "Next w l0 h0 = Inr (True, w\<lparr>incrs := 1\<rparr>, l0, h0)"
    using L(5,6) by (rule Next_first)
  have second: "Next (w\<lparr>incrs := 1\<rparr>) l0 h0 = Inl Blocked \<or>
     (\<exists>l2 h2. Next (w\<lparr>incrs := 1\<rparr>) l0 h0 = Inr (True, w\<lparr>incrs := 2\<rparr>, l2, h2) \<and> wmu l2)"
    using Next_second [OF L(1,2,3), of "w\<lparr>incrs := 1\<rparr>"] L(4,5) by auto
  have third: "Next (w\<lparr>incrs := 2\<rparr>) l2 h2 = Inr (False, w\<lparr>incrs := 3\<rparr>, l2\<lparr>wmu := False\<rparr>, h2)"
    if "wmu l2" for l2 h2
    using Next_third [of "w\<lparr>incrs := 2\<rparr>" l2 h2] L(5) that by simp
  have fourth: "Next (w\<lparr>incrs := 3\<rparr>) l3 h3 =
      Inl (Panic ''Cannot call Next() again after it has returned false.'')" for l3 h3
    using Next_fourth [of "w\<lparr>incrs := 3\<rparr>" l3 h3] L(5) by simp
  have quiet: "Next (w\<lparr>incrs := 1\<rparr>) l0 h0 \<noteq> Inl Blocked"
    if q: "refCounts l0 = [Some r0, Some r1]" "pbits r0 = 8" "pbits r1 = 8"
      "counters r1 = counters r0 \<longrightarrow> offset r1 \<noteq> offset r0"
      "\<forall>j. slot h0 (counters r0) (idxForP r0 j) = 0"
      "\<forall>j. slot h0 (counters r1) (idxForP r1 j) = 0"
  proof -
    have st: "state l0 \<le> 3" and w0: "wf_refCount r0 h0" and w1: "wf_refCount r1 h0"
      using L(2,3) q(1) by (simp_all add: wf_LRMutex_def wf_slot_def)
    have "Next (w\<lparr>incrs := 1\<rparr>) l0 h0 =
       Inr (True, w\<lparr>incrs := 1, incrs := 2\<rparr>, l0\<lparr>state := state l0 XOR 3\<rparr>,
            if state l0 AND 1 = 0 then drained r0 (drained r1 h0) else drained r1 (drained r0 h0))"
      using q(4,5,6) L(5)
      by (intro Next_second_quiet [OF _ _ st q(1) w0 w1 q(2,3)]) simp_all
    then show ?thesis by simp
  qed
  show ?thesis
    using first second third fourth Next_zero quiet by blast
qed

theorem Next_true_true_false_witness:
  "wf_heap empty_heap \<and> wf_LRMutex zero_LRMutex empty_heap \<and>
   Lock zero_LRMutex empty_heap = Inr (first_LockToken, locked_mutex, fresh_heap) \<and>
   refCounts locked_mutex = [Some fresh_rc0, Some fresh_rc1] \<and>
   pbits fresh_rc0 = 8 \<and> pbits fresh_rc1 = 8 \<and> offset fresh_rc1 \<noteq> offset fresh_rc0 \<and>
   (\<forall>j. slot fresh_heap (counters fresh_rc0) (idxForP fresh_rc0 j) = 0) \<and>
   (\<forall>j. slot fresh_heap (counters fresh_rc1) (idxForP fresh_rc1 j) = 0) \<and>
   Next zero_LockToken zero_LRMutex empty_heap =
     Inl (Panic ''Use of a zero LockToken is invalid.'') \<and>
   Next first_LockToken locked_mutex fresh_heap =
     Inr (True, first_LockToken\<lparr>incrs := 1\<rparr>, locked_mutex, fresh_heap) \<and>
   Next (first_LockToken\<lparr>incrs := 1\<rparr>) locked_mutex fresh_heap =
     Inr (True, first_LockToken\<lparr>incrs := 2\<rparr>, locked_mutex\<lparr>state := 3\<rparr>, after_second_drain) \<and>
   Next (first_LockToken\<lparr>incrs := 2\<rparr>) (locked_mutex\<lparr>state := 3\<rparr>) after_second_drain =
     Inr (False, first_LockToken\<lparr>incrs := 3\<rparr>, locked_mutex\<lparr>state := 3, wmu := False\<rparr>,
          after_second_drain) \<and>
   Next (first_LockToken\<lparr>incrs := 3\<rparr>) (locked_mutex\<lparr>state := 3, wmu := False\<rparr>)
       after_second_drain =
     Inl (Panic ''Cannot call Next() again after it has returned false.'')"
proof -
  have r: "refCounts locked_mutex = [Some fresh_rc0, Some fresh_rc1]"
    by (simp add: locked_mutex_def)
  have q: "\<forall>j. slot fresh_heap (counters fresh_rc0) (idxForP fresh_rc0 j) = 0"
    "\<forall>j. slot fresh_heap (counters fresh_rc1) (idxForP fresh_rc1 j) = 0"
    by (simp_all add: fresh_slots)
  show ?thesis
    using wf_heap_examples(1) wf_LRMutex_zero [of empty_heap] Lock_zero Next_second_fresh r q
      Next_true_true_false [OF wf_heap_examples(1) wf_LRMutex_zero Lock_zero,
        of zero_LRMutex empty_heap fresh_rc0 fresh_rc1]
    by auto
qed

text \<open>
  C4. \<open>Lock\<close> leaves \<open>state\<close> as it was (0 when it had to initialise) and issues a token
  whose \<open>startIdx\<close> is the opposite of bit 1 of \<open>state\<close>, the leftRight bit. \<open>Idx\<close> panics
  on that token; it is \<open>startIdx\<close> on the token the first \<open>Next\<close> returns, \<open>1 - startIdx\<close>
  on the token the second \<open>Next\<close> returns, and it panics on the token of the third
  \<open>Next\<close>, the one that returns false.
\<close>

theorem Lock_startIdx_and_Idx:
  assumes "wf_heap h" and "wf_LRMutex l h" and "Lock l h = Inr (w, l0, h0)"
  shows "state l0 = (if once l then state l else 0) \<and>
         startIdx w = (if bit (state l0) 1 then 0 else 1) \<and>
         LockToken_Idx w = Inl (Panic ''Cannot call Idx() before calling Next().'') \<and>
         Next w l0 h0 = Inr (True, w\<lparr>incrs := 1\<rparr>, l0, h0) \<and>
         LockToken_Idx (w\<lparr>incrs := 1\<rparr>) = Inr (uint (startIdx w)) \<and>
         (Next (w\<lparr>incrs := 1\<rparr>) l0 h0 = Inr (b, w2, l2, h2) \<longrightarrow>
            LockToken_Idx w2 = Inr (1 - uint (startIdx w)) \<and>
            (Next w2 l2 h2 = Inr (b3, w3, l3, h3) \<longrightarrow>
               \<not> b3 \<and>
               LockToken_Idx w3 =
                 Inl (Panic ''Cannot call Idx() again after Next() has returned false.'')))"
proof -
  have L: "wf_heap h0" "wf_LRMutex l0 h0" "once l0" "wmu l0" "nonzero w" "incrs w = 0"
    "state l0 = (if once l then state l else 0)"
    "startIdx w = ucast (rem32 (signed_drop_bit 1 (state l0) + 1) 2)"
    using Lock_wf [OF assms] by auto
  have st: "state l0 \<le> 3"
    using L(2,3) by (simp add: wf_LRMutex_def)
  have si: "startIdx w = (if bit (state l0) 1 then 0 else 1)"
    using L(8) startIdx_opposite [OF st] by simp
  then have s01: "startIdx w = 0 \<or> startIdx w = 1"
    by auto
  note I = Idx_values [OF L(5) s01]
  have w0: "w\<lparr>incrs := 0\<rparr> = w" using L(6) by simp
  have first: "Next w l0 h0 = Inr (True, w\<lparr>incrs := 1\<rparr>, l0, h0)"
    using L(5,6) by (rule Next_first)
  have second: "w2 = w\<lparr>incrs := 2\<rparr> \<and> wmu l2"
    if "Next (w\<lparr>incrs := 1\<rparr>) l0 h0 = Inr (b, w2, l2, h2)"
    using Next_second [OF L(1,2,3), of "w\<lparr>incrs := 1\<rparr>"] L(4,5) that by auto
  have third: "\<not> b3 \<and> w3 = w\<lparr>incrs := 3\<rparr>"
    if "wmu l2" "Next (w\<lparr>incrs := 2\<rparr>) l2 h2 = Inr (b3, w3, l3, h3)"
    using Next_third [of "w\<lparr>incrs := 2\<rparr>" l2 h2] L(5) that by simp
  show ?thesis
    using L(7) si I(1) w0 first I(2) I(3) I(4) second third by auto
qed

theorem Lock_startIdx_and_Idx_witness:
  "wf_heap empty_heap \<and> wf_LRMutex zero_LRMutex empty_heap \<and>
   Lock zero_LRMutex empty_heap = Inr (first_LockToken, locked_mutex, fresh_heap) \<and>
   state locked_mutex = 0 \<and> startIdx first_LockToken = 1 \<and>
   LockToken_Idx first_LockToken = Inl (Panic ''Cannot call Idx() before calling Next().'') \<and>
   LockToken_Idx (first_LockToken\<lparr>incrs := 1\<rparr>) = Inr 1 \<and>
   Next (first_LockToken\<lparr>incrs := 1\<rparr>) locked_mutex fresh_heap =
     Inr (True, first_LockToken\<lparr>incrs := 2\<rparr>, locked_mutex\<lparr>state := 3\<rparr>, after_second_drain) \<and>
   LockToken_Idx (first_LockToken\<lparr>incrs := 2\<rparr>) = Inr 0 \<and>
   Next (first_LockToken\<lparr>incrs := 2\<rparr>) (locked_mutex\<lparr>state := 3\<rparr>) after_second_drain =
     Inr (False, first_LockToken\<lparr>incrs := 3\<rparr>, locked_mutex\<lparr>state := 3, wmu := False\<rparr>,
          after_second_drain) \<and>
   LockToken_Idx (first_LockToken\<lparr>incrs := 3\<rparr>) =
     Inl (Panic ''Cannot call Idx() again after Next() has returned false.'')"
proof -
  have third: "Next (first_LockToken\<lparr>incrs := 2\<rparr>) (locked_mutex\<lparr>state := 3\<rparr>) after_second_drain =
     Inr (False, first_LockToken\<lparr>incrs := 3\<rparr>, locked_mutex\<lparr>state := 3, wmu := False\<rparr>,
          after_second_drain)"
    using Next_third [of "first_LockToken\<lparr>incrs := 2\<rparr>" "locked_mutex\<lparr>state := 3\<rparr>" after_second_drain]
    by (simp add: first_LockToken_def locked_mutex_def)
  have s: "state locked_mutex = 0" "startIdx first_LockToken = 1"
    by (simp_all add: locked_mutex_def first_LockToken_def)
  show ?thesis
    using wf_heap_examples(1) wf_LRMutex_zero [of empty_heap] Lock_zero Next_second_fresh third s
      Lock_startIdx_and_Idx [OF wf_heap_examples(1) wf_LRMutex_zero Lock_zero,
        where b = True and ?w2.0 = "first_LockToken\<lparr>incrs := 2\<rparr>"
          and ?l2.0 = "locked_mutex\<lparr>state := 3\<rparr>" and ?h2.0 = after_second_drain
          and ?b3.0 = False and ?w3.0 = "first_LockToken\<lparr>incrs := 3\<rparr>"
          and ?l3.0 = "locked_mutex\<lparr>state := 3, wmu := False\<rparr>" and ?h3.0 = after_second_drain]
    by simp
qed

section \<open>A reader that registers during a drain\<close>

text \<open>
  C7. Goroutines interleave between the atomic operations, so between any two calls of
  the functions above. One such run, on a zero mutex, each line a call that returns:
  \<^item> reader B enters \<open>RLock\<close>, runs \<open>once.Do\<close> and loads \<open>state0 = 0\<close>, which selects
    \<open>refCounts[0]\<close>;
  \<^item> writer W1 calls \<open>Lock\<close> and \<open>Next\<close>, and in its second \<open>Next\<close> flips leftRight
    (\<open>state = 2\<close>), drains \<open>refCounts[1]\<close>, flips versionIndex (\<open>state = 3\<close>) and runs
    \<open>wait\<close> on \<open>refCounts[0]\<close>, which finds no shard armed and returns;
  \<^item> B goes on (\<open>RLock_after_load\<close>): \<open>acquire\<close> takes slot 16 from \<open>-1\<close> to 0, and B
    holds a token with \<open>Idx = 1\<close>;
  \<^item> W1 goes on with \<open>allocateRefCount\<close>, whose \<open>clear\<close> stores 0 in slot 16: the heap is
    the one of the run without B (\<open>after_second_drain\<close>). Its third \<open>Next\<close> unlocks;
  \<^item> writer W2 calls \<open>Lock\<close> and \<open>Next\<close>. Its second \<open>Next\<close> flips leftRight and drains
    \<open>refCounts[0]\<close>, where B registered before the flip and has not released: \<open>wait\<close>
    finds no shard armed, and \<open>Next\<close> returns true. W2 now writes copy 1, the copy B
    reads.
  Had slot 16 counted B (the last line), this \<open>wait\<close> would have parked W2.
\<close>

theorem late_reader_not_drained:
  "once_Do_init zero_LRMutex empty_heap = Inr (fresh_mutex, fresh_heap) \<and>
   state fresh_mutex = 0 \<and>
   Lock fresh_mutex fresh_heap = Inr (first_LockToken, locked_mutex, fresh_heap) \<and>
   Next first_LockToken locked_mutex fresh_heap =
     Inr (True, first_LockToken\<lparr>incrs := 1\<rparr>, locked_mutex, fresh_heap) \<and>
   waitForNonVersionIndex 2 (locked_mutex\<lparr>state := 2\<rparr>) fresh_heap =
     Inr (locked_mutex\<lparr>state := 2\<rparr>, after_first_drain) \<and>
   wait fresh_rc0 after_first_drain = Inr (scan_heap fresh_rc0 1 after_first_drain) \<and>
   RLock_after_load 0 (locked_mutex\<lparr>state := 3\<rparr>) (scan_heap fresh_rc0 1 after_first_drain) =
     Inr (late_token, locked_mutex\<lparr>state := 3\<rparr>, late_heap) \<and>
   allocateRefCount (Some fresh_rc0) late_heap = Inr (fresh_rc0, after_second_drain) \<and>
   Next (first_LockToken\<lparr>incrs := 2\<rparr>) (locked_mutex\<lparr>state := 3\<rparr>) after_second_drain =
     Inr (False, first_LockToken\<lparr>incrs := 3\<rparr>, released_mutex, after_second_drain) \<and>
   Lock released_mutex after_second_drain =
     Inr (second_LockToken, released_mutex\<lparr>wmu := True\<rparr>, after_second_drain) \<and>
   Next second_LockToken (released_mutex\<lparr>wmu := True\<rparr>) after_second_drain =
     Inr (True, second_LockToken\<lparr>incrs := 1\<rparr>, released_mutex\<lparr>wmu := True\<rparr>,
          after_second_drain) \<and>
   Next (second_LockToken\<lparr>incrs := 1\<rparr>) (released_mutex\<lparr>wmu := True\<rparr>) after_second_drain =
     Inr (True, second_LockToken\<lparr>incrs := 2\<rparr>, released_mutex\<lparr>wmu := True, state := 0\<rparr>,
          drained fresh_rc1 (drained fresh_rc0 after_second_drain)) \<and>
   LockToken_Idx (second_LockToken\<lparr>incrs := 2\<rparr>) = Inr 1 \<and>
   RLockToken_Idx late_token = Inr 1 \<and>
   wait fresh_rc0 (slot_set 0 16 1 after_second_drain) = Inl Blocked"
proof -
  have a: "state fresh_mutex = 0"
    and b: "Lock fresh_mutex fresh_heap = Inr (first_LockToken, locked_mutex, fresh_heap)"
    by (simp_all add: Lock_def once_Do_init_def fresh_mutex_def locked_mutex_def
        first_LockToken_def Let_def)
  have c: "Next first_LockToken locked_mutex fresh_heap =
     Inr (True, first_LockToken\<lparr>incrs := 1\<rparr>, locked_mutex, fresh_heap)"
    by (rule Next_first) (simp_all add: first_LockToken_def)
  have d: "Next (first_LockToken\<lparr>incrs := 2\<rparr>) (locked_mutex\<lparr>state := 3\<rparr>) after_second_drain =
     Inr (False, first_LockToken\<lparr>incrs := 3\<rparr>, released_mutex, after_second_drain)"
    using Next_third [of "first_LockToken\<lparr>incrs := 2\<rparr>" "locked_mutex\<lparr>state := 3\<rparr>" after_second_drain]
    by (simp add: first_LockToken_def locked_mutex_def released_mutex_def)
  have e: "Next second_LockToken (released_mutex\<lparr>wmu := True\<rparr>) after_second_drain =
     Inr (True, second_LockToken\<lparr>incrs := 1\<rparr>, released_mutex\<lparr>wmu := True\<rparr>,
          after_second_drain)"
    by (rule Next_first) (simp_all add: second_LockToken_def)
  have f: "LockToken_Idx (second_LockToken\<lparr>incrs := 2\<rparr>) = Inr 1"
    "RLockToken_Idx late_token = Inr 1"
    by (simp_all add: LockToken_Idx_def RLockToken_Idx_def second_LockToken_def late_token_def
        signed_modulo_int_def word_less_nat_alt)
  show ?thesis
    using once_Do_init_zero a b c first_drain_fresh fresh_wait0 late_RLock late_clear d
      second_Lock e second_writer_Next f counted_reader_blocks
    by simp
qed

end
